theory Spec2Isabelle
  imports Main
begin

section \<open>Data model\<close>

text \<open>
  The two panic messages of the package, and the fatal error the Go runtime raises when
  \<^verbatim>\<open>RUnlock\<close> is called on a \<^verbatim>\<open>sync.RWMutex\<close> that no reader holds.
\<close>

datatype panic =
    messageUsageOldReaderDetected
  | messageMultipleWritersDetected
  | fatalRUnlockOfUnlockedRWMutex

text \<open>
  \<^verbatim>\<open>sync.RWMutex\<close>, by its documented contract: a count of the readers that hold it, and
  the state of the exclusive side. A writer that has called \<^verbatim>\<open>Lock\<close> and waits for the
  readers to leave already makes \<^verbatim>\<open>TryRLock\<close> fail.
\<close>

datatype wstate = NoWriter | WriterWaiting | WriterHolds

record RWMutex =
  readerCount :: nat
  wlock :: wstate

text \<open>\<^verbatim>\<open>type current[T any] struct { sync.RWMutex; v T }\<close>\<close>

record 'a current =
  rwmutex :: RWMutex
  cur_v :: 'a

type_synonym ptr = nat

text \<open>
  \<^verbatim>\<open>type Writer[T any] struct\<close>: the atomic pointer \<open>current\<close>, the mutex
  \<open>unsyncWriterCheck\<close> (True when locked) and \<open>writerValue\<close>. The field \<open>heap\<close> holds the
  generation records allocated so far; a pointer to a record is its index, and records are
  never freed.
\<close>

record 'a Writer =
  heap :: "'a current list"
  current :: ptr
  unsyncWriterCheck :: bool
  writerValue :: 'a

text \<open>\<^verbatim>\<open>type Reader[T any] struct { mu *sync.RWMutex; done bool; v T }\<close>\<close>

record 'a Reader =
  reader_mu :: ptr
  reader_done :: bool
  reader_v :: 'a

section \<open>The locks\<close>

definition RWMutex_zero :: RWMutex where
  "RWMutex_zero = \<lparr>readerCount = 0, wlock = NoWriter\<rparr>"

definition TryRLock :: "RWMutex \<Rightarrow> bool \<times> RWMutex" where
  "TryRLock m =
     (if wlock m = NoWriter then (True, m\<lparr>readerCount := Suc (readerCount m)\<rparr>)
      else (False, m))"

definition RUnlock :: "RWMutex \<Rightarrow> RWMutex option" where
  "RUnlock m =
     (if readerCount m = 0 then None
      else Some (m\<lparr>readerCount := readerCount m - 1\<rparr>))"

text \<open>
  \<^verbatim>\<open>Lock\<close> in its two phases: the writer announces itself (which waits while another
  writer has the lock), then waits until no reader is left. \<open>None\<close> is a caller that
  cannot proceed in this state.
\<close>

definition LockAnnounce :: "RWMutex \<Rightarrow> RWMutex option" where
  "LockAnnounce m = (if wlock m = NoWriter then Some (m\<lparr>wlock := WriterWaiting\<rparr>) else None)"

definition LockAcquire :: "RWMutex \<Rightarrow> RWMutex option" where
  "LockAcquire m =
     (if wlock m = WriterWaiting \<and> readerCount m = 0 then Some (m\<lparr>wlock := WriterHolds\<rparr>)
      else None)"

definition Lock :: "RWMutex \<Rightarrow> RWMutex option" where
  "Lock m = Option.bind (LockAnnounce m) LockAcquire"

definition Unlock :: "RWMutex \<Rightarrow> RWMutex" where
  "Unlock m = m\<lparr>wlock := NoWriter\<rparr>"

text \<open>
  \<^verbatim>\<open>Unlock\<close> is called by the holder only, right after its \<^verbatim>\<open>Lock\<close> was granted.

  The lock embedded in the record at a pointer, read and replaced. Pointers come from
  allocation only (\<^verbatim>\<open>New\<close> and \<^verbatim>\<open>Swap\<close>), so a pointer in use is an index below the
  length of the heap; the invariant \<open>shape_ok\<close> below says so for every reachable state.
\<close>

definition mutex_at :: "ptr \<Rightarrow> 'a Writer \<Rightarrow> RWMutex" where
  "mutex_at p w = rwmutex (heap w ! p)"

definition set_mutex :: "ptr \<Rightarrow> RWMutex \<Rightarrow> 'a Writer \<Rightarrow> 'a Writer" where
  "set_mutex p m w = w\<lparr>heap := (heap w)[p := (heap w ! p)\<lparr>rwmutex := m\<rparr>]\<rparr>"

section \<open>The statements of the Writer\<close>

text \<open>
  \<^verbatim>\<open>if !w.unsyncWriterCheck.TryLock() { panic(...) }\<close>: \<open>None\<close> when \<^verbatim>\<open>TryLock\<close> reports
  false, otherwise the Writer with the guard taken.
\<close>

definition guard_TryLock :: "'a Writer \<Rightarrow> 'a Writer option" where
  "guard_TryLock w =
     (if unsyncWriterCheck w then None else Some (w\<lparr>unsyncWriterCheck := True\<rparr>))"

text \<open>\<^verbatim>\<open>defer w.unsyncWriterCheck.Unlock()\<close>, run when the method returns.\<close>

definition guard_Unlock :: "'a Writer \<Rightarrow> 'a Writer" where
  "guard_Unlock w = w\<lparr>unsyncWriterCheck := False\<rparr>"

text \<open>
  \<^verbatim>\<open>oldReader := w.current.Swap(&current[T]{v: w.writerValue})\<close>: a new record with a
  zero lock is allocated and becomes the live one; the result is the pointer that was live.
\<close>

definition publish :: "'a Writer \<Rightarrow> ptr \<times> 'a Writer" where
  "publish w =
     (current w,
      w\<lparr>heap := heap w @ [\<lparr>rwmutex = RWMutex_zero, cur_v = writerValue w\<rparr>],
        current := length (heap w)\<rparr>)"

text \<open>\<^verbatim>\<open>w.writerValue = oldReader.v\<close>\<close>

definition absorb :: "ptr \<Rightarrow> 'a Writer \<Rightarrow> 'a Writer" where
  "absorb oldReader w = w\<lparr>writerValue := cur_v (heap w ! oldReader)\<rparr>"

section \<open>The methods, run by one caller with nothing interleaved\<close>

definition New :: "'a \<Rightarrow> 'a \<Rightarrow> 'a Writer" where
  "New reader writer =
     \<lparr>heap = [\<lparr>rwmutex = RWMutex_zero, cur_v = reader\<rparr>],
      current = 0,
      unsyncWriterCheck = False,
      writerValue = writer\<rparr>"

text \<open>
  A method returns its result or the panic it raised, and the Writer as it is left; a
  panic raised by the guard leaves it as it was found.
\<close>

definition Writer_Get :: "'a Writer \<Rightarrow> (panic + 'a) \<times> 'a Writer" where
  "Writer_Get w =
     (case guard_TryLock w of
        None \<Rightarrow> (Inl messageMultipleWritersDetected, w)
      | Some w1 \<Rightarrow> (Inr (writerValue w1), guard_Unlock w1))"

definition Writer_Set :: "'a \<Rightarrow> 'a Writer \<Rightarrow> (panic + 'a) \<times> 'a Writer" where
  "Writer_Set x w =
     (case guard_TryLock w of
        None \<Rightarrow> (Inl messageMultipleWritersDetected, w)
      | Some w1 \<Rightarrow>
          (let previous = writerValue w1;
               w2 = w1\<lparr>writerValue := x\<rparr>
           in (Inr previous, guard_Unlock w2)))"

text \<open>
  \<^verbatim>\<open>Swap\<close> is the one method that can wait: \<open>None\<close> is a call that does not return
  because \<^verbatim>\<open>oldReader.Lock()\<close> cannot be granted and nobody else runs.
\<close>

definition Writer_Swap :: "'a Writer \<Rightarrow> ((panic + unit) \<times> 'a Writer) option" where
  "Writer_Swap w =
     (case guard_TryLock w of
        None \<Rightarrow> Some (Inl messageMultipleWritersDetected, w)
      | Some w1 \<Rightarrow>
          (case publish w1 of
             (oldReader, w2) \<Rightarrow>
               (case Lock (mutex_at oldReader w2) of
                  None \<Rightarrow> None
                | Some m \<Rightarrow>
                    (let w3 = set_mutex oldReader m w2;
                         w4 = set_mutex oldReader (Unlock (mutex_at oldReader w3)) w3;
                         w5 = absorb oldReader w4
                     in Some (Inr (), guard_Unlock w5)))))"

text \<open>
  The loop of \<^verbatim>\<open>Reader\<close>: \<^verbatim>\<open>current := w.current.Load()\<close>, then \<^verbatim>\<open>current.TryRLock()\<close>,
  which leaves the Writer as \<open>set_mutex (current w) m w\<close> when it succeeds, then the second
  \<^verbatim>\<open>Load\<close> in that state and the comparison of the two pointers. Run alone, an
  iteration that fails repeats in the same state, so a call that never returns has the
  value \<open>None\<close>.
\<close>

partial_function (option) Writer_Reader ::
    "'a Writer \<Rightarrow> ((panic + 'a Reader) \<times> 'a Writer) option" where
  "Writer_Reader w =
     (case TryRLock (mutex_at (current w) w) of
        (ok, m) \<Rightarrow>
          (if \<not> ok then Writer_Reader w
           else if current w \<noteq> current (set_mutex (current w) m w) then
             (case RUnlock (mutex_at (current w) (set_mutex (current w) m w)) of
                None \<Rightarrow> Some (Inl fatalRUnlockOfUnlockedRWMutex, set_mutex (current w) m w)
              | Some m' \<Rightarrow> Writer_Reader (set_mutex (current w) m' (set_mutex (current w) m w)))
           else
             Some (Inr \<lparr>reader_mu = current w, reader_done = False,
                        reader_v = cur_v (heap (set_mutex (current w) m w) ! current w)\<rparr>,
                   set_mutex (current w) m w)))"

definition Reader_Get :: "'a Reader \<Rightarrow> (panic + 'a) \<times> 'a Reader" where
  "Reader_Get r =
     (if reader_done r then (Inl messageUsageOldReaderDetected, r)
      else (Inr (reader_v r), r))"

definition Reader_Done :: "'a Reader \<Rightarrow> 'a Writer \<Rightarrow> (panic + unit) \<times> 'a Reader \<times> 'a Writer" where
  "Reader_Done r w =
     (if reader_done r then (Inl messageUsageOldReaderDetected, r, w)
      else
        (let r1 = r\<lparr>reader_done := True\<rparr> in
         case RUnlock (mutex_at (reader_mu r1) w) of
           None \<Rightarrow> (Inl fatalRUnlockOfUnlockedRWMutex, r1, w)
         | Some m \<Rightarrow> (Inr (), r1, set_mutex (reader_mu r1) m w)))"

text \<open>The value that a new \<^verbatim>\<open>Reader\<close> call sees: the one in the live record.\<close>

definition published :: "'a Writer \<Rightarrow> 'a" where
  "published w = cur_v (heap w ! current w)"

section \<open>Call sequences\<close>







text \<open>
  A Writer between calls with nobody on its live record: the guard is free and the live
  record's lock is in its zero state.
\<close>

definition quiescent :: "'a Writer \<Rightarrow> bool" where
  "quiescent w \<longleftrightarrow>
     current w < length (heap w) \<and> \<not> unsyncWriterCheck w \<and>
     mutex_at (current w) w = RWMutex_zero"

section \<open>The methods as interleaved atomic steps\<close>

text \<open>
  Where the single caller inside the guard stands: in \<^verbatim>\<open>Get\<close>, in \<^verbatim>\<open>Set\<close> with its
  argument, or in \<^verbatim>\<open>Swap\<close> before the exchange of the pointer, after it (holding
  \<^verbatim>\<open>oldReader\<close>), waiting in \<^verbatim>\<open>oldReader.Lock()\<close>, holding that lock, or past
  \<^verbatim>\<open>oldReader.Unlock()\<close>.
\<close>

datatype 'a wpc =
    WIdle
  | InGet
  | InSet 'a
  | InSwap
  | SwapPublished ptr
  | SwapWaiting ptr
  | SwapHolding ptr
  | SwapUnlocked ptr

text \<open>
  Where a thread stands in \<^verbatim>\<open>Reader\<close>: outside a call, at the head of the loop, after
  the first \<^verbatim>\<open>Load\<close>, after a successful \<^verbatim>\<open>TryRLock\<close>, or after a second
  \<^verbatim>\<open>Load\<close> that gave another pointer (before \<^verbatim>\<open>current.RUnlock()\<close>).
\<close>

datatype rpc = RIdle | RLoop | RLoaded ptr | RLocked ptr | RStale ptr

record 'a system =
  shared :: "'a Writer"
  wpc :: "'a wpc"
  rpcs :: "rpc list"
  handles :: "'a Reader list"

datatype 'a action =
    GetEnter | GetExit
  | SetEnter 'a | SetExit
  | SwapEnter | SwapPublish | SwapLockAnnounce | SwapLockAcquire | SwapUnlock | SwapExit
  | ReaderCall nat | ReaderLoad nat | ReaderTryRLock nat | ReaderRecheck nat | ReaderRUnlock nat
  | HandleGet nat | HandleDone nat

datatype 'a obs =
    Silent
  | Panics panic
  | GetReturns 'a
  | SetReturns 'a
  | SwapReturns
  | ReaderRetries nat
  | ReaderReturns nat nat
  | HandleGetReturns 'a
  | DoneReturns

text \<open>
  One atomic step. \<open>None\<close> is a step that cannot be taken in this state: the caller is
  not at that statement, or it waits (only \<open>SwapLockAnnounce\<close> and \<open>SwapLockAcquire\<close>
  can wait). A writer method can be entered at any time by any thread; the methods of a
  handle are run whole, a \<^verbatim>\<open>Reader\<close> being used by one thread only.
\<close>

fun step :: "'a action \<Rightarrow> 'a system \<Rightarrow> ('a obs \<times> 'a system) option" where
  "step GetEnter s =
     (case guard_TryLock (shared s) of
        None \<Rightarrow> Some (Panics messageMultipleWritersDetected, s)
      | Some w1 \<Rightarrow> Some (Silent, s\<lparr>shared := w1, wpc := InGet\<rparr>))"
| "step GetExit s =
     (case wpc s of
        InGet \<Rightarrow>
          Some (GetReturns (writerValue (shared s)),
                s\<lparr>shared := guard_Unlock (shared s), wpc := WIdle\<rparr>)
      | _ \<Rightarrow> None)"
| "step (SetEnter x) s =
     (case guard_TryLock (shared s) of
        None \<Rightarrow> Some (Panics messageMultipleWritersDetected, s)
      | Some w1 \<Rightarrow> Some (Silent, s\<lparr>shared := w1, wpc := InSet x\<rparr>))"
| "step SetExit s =
     (case wpc s of
        InSet x \<Rightarrow>
          Some (SetReturns (writerValue (shared s)),
                s\<lparr>shared := guard_Unlock ((shared s)\<lparr>writerValue := x\<rparr>), wpc := WIdle\<rparr>)
      | _ \<Rightarrow> None)"
| "step SwapEnter s =
     (case guard_TryLock (shared s) of
        None \<Rightarrow> Some (Panics messageMultipleWritersDetected, s)
      | Some w1 \<Rightarrow> Some (Silent, s\<lparr>shared := w1, wpc := InSwap\<rparr>))"
| "step SwapPublish s =
     (case wpc s of
        InSwap \<Rightarrow>
          (case publish (shared s) of
             (oldReader, w2) \<Rightarrow> Some (Silent, s\<lparr>shared := w2, wpc := SwapPublished oldReader\<rparr>))
      | _ \<Rightarrow> None)"
| "step SwapLockAnnounce s =
     (case wpc s of
        SwapPublished oldReader \<Rightarrow>
          (case LockAnnounce (mutex_at oldReader (shared s)) of
             None \<Rightarrow> None
           | Some m \<Rightarrow>
               Some (Silent, s\<lparr>shared := set_mutex oldReader m (shared s),
                               wpc := SwapWaiting oldReader\<rparr>))
      | _ \<Rightarrow> None)"
| "step SwapLockAcquire s =
     (case wpc s of
        SwapWaiting oldReader \<Rightarrow>
          (case LockAcquire (mutex_at oldReader (shared s)) of
             None \<Rightarrow> None
           | Some m \<Rightarrow>
               Some (Silent, s\<lparr>shared := set_mutex oldReader m (shared s),
                               wpc := SwapHolding oldReader\<rparr>))
      | _ \<Rightarrow> None)"
| "step SwapUnlock s =
     (case wpc s of
        SwapHolding oldReader \<Rightarrow>
          Some (Silent,
                s\<lparr>shared := set_mutex oldReader (Unlock (mutex_at oldReader (shared s))) (shared s),
                  wpc := SwapUnlocked oldReader\<rparr>)
      | _ \<Rightarrow> None)"
| "step SwapExit s =
     (case wpc s of
        SwapUnlocked oldReader \<Rightarrow>
          Some (SwapReturns,
                s\<lparr>shared := guard_Unlock (absorb oldReader (shared s)), wpc := WIdle\<rparr>)
      | _ \<Rightarrow> None)"
| "step (ReaderCall t) s =
     (if t < length (rpcs s) \<and> rpcs s ! t = RIdle
      then Some (Silent, s\<lparr>rpcs := (rpcs s)[t := RLoop]\<rparr>)
      else None)"
| "step (ReaderLoad t) s =
     (if t < length (rpcs s) \<and> rpcs s ! t = RLoop
      then Some (Silent, s\<lparr>rpcs := (rpcs s)[t := RLoaded (current (shared s))]\<rparr>)
      else None)"
| "step (ReaderTryRLock t) s =
     (if t < length (rpcs s) then
        (case rpcs s ! t of
           RLoaded c \<Rightarrow>
             (case TryRLock (mutex_at c (shared s)) of
                (ok, m) \<Rightarrow>
                  (if \<not> ok then Some (ReaderRetries t, s\<lparr>rpcs := (rpcs s)[t := RLoop]\<rparr>)
                   else Some (Silent, s\<lparr>shared := set_mutex c m (shared s),
                                        rpcs := (rpcs s)[t := RLocked c]\<rparr>)))
         | _ \<Rightarrow> None)
      else None)"
| "step (ReaderRecheck t) s =
     (if t < length (rpcs s) then
        (case rpcs s ! t of
           RLocked c \<Rightarrow>
             (if c \<noteq> current (shared s)
              then Some (Silent, s\<lparr>rpcs := (rpcs s)[t := RStale c]\<rparr>)
              else Some (ReaderReturns t (length (handles s)),
                         s\<lparr>rpcs := (rpcs s)[t := RIdle],
                           handles := handles s @
                             [\<lparr>reader_mu = c, reader_done = False,
                               reader_v = cur_v (heap (shared s) ! c)\<rparr>]\<rparr>))
         | _ \<Rightarrow> None)
      else None)"
| "step (ReaderRUnlock t) s =
     (if t < length (rpcs s) then
        (case rpcs s ! t of
           RStale c \<Rightarrow>
             (case RUnlock (mutex_at c (shared s)) of
                None \<Rightarrow> Some (Panics fatalRUnlockOfUnlockedRWMutex, s)
              | Some m \<Rightarrow>
                  Some (ReaderRetries t, s\<lparr>shared := set_mutex c m (shared s),
                                          rpcs := (rpcs s)[t := RLoop]\<rparr>))
         | _ \<Rightarrow> None)
      else None)"
| "step (HandleGet h) s =
     (if h < length (handles s) then
        (case Reader_Get (handles s ! h) of
           (Inl p, r) \<Rightarrow> Some (Panics p, s\<lparr>handles := (handles s)[h := r]\<rparr>)
         | (Inr x, r) \<Rightarrow> Some (HandleGetReturns x, s\<lparr>handles := (handles s)[h := r]\<rparr>))
      else None)"
| "step (HandleDone h) s =
     (if h < length (handles s) then
        (case Reader_Done (handles s ! h) (shared s) of
           (Inl p, r, w) \<Rightarrow> Some (Panics p, s\<lparr>shared := w, handles := (handles s)[h := r]\<rparr>)
         | (Inr _, r, w) \<Rightarrow> Some (DoneReturns, s\<lparr>shared := w, handles := (handles s)[h := r]\<rparr>))
      else None)"

text \<open>A schedule run from a state: the observations in order, and the state reached.\<close>

fun run :: "'a action list \<Rightarrow> 'a system \<Rightarrow> ('a obs list \<times> 'a system) option" where
  "run [] s = Some ([], s)"
| "run (a # as) s =
     (case step a s of
        None \<Rightarrow> None
      | Some (ob, s1) \<Rightarrow>
          (case run as s1 of
             None \<Rightarrow> None
           | Some (obs, s2) \<Rightarrow> Some (ob # obs, s2)))"

text \<open>A Writer fresh from \<^verbatim>\<open>New\<close>, shared by \<open>n\<close> reader threads and the writer side.\<close>

definition init :: "nat \<Rightarrow> 'a \<Rightarrow> 'a \<Rightarrow> 'a system" where
  "init n reader writer =
     \<lparr>shared = New reader writer, wpc = WIdle, rpcs = replicate n RIdle, handles = []\<rparr>"

inductive reachable :: "'a system \<Rightarrow> bool" where
  reachable_init: "reachable (init n reader writer)"
| reachable_step: "reachable s \<Longrightarrow> step a s = Some (ob, s1) \<Longrightarrow> reachable s1"

subsection \<open>Schedules\<close>

text \<open>
  A schedule in which no \<^verbatim>\<open>Set\<close> is entered with the value that is published at that
  moment.
\<close>

fun Set_avoids_published :: "'a action list \<Rightarrow> 'a system \<Rightarrow> bool" where
  "Set_avoids_published [] s = True"
| "Set_avoids_published (a # as) s =
     ((case a of SetEnter x \<Rightarrow> x \<noteq> published (shared s) | _ \<Rightarrow> True) \<and>
      (case step a s of None \<Rightarrow> True | Some (ob, s1) \<Rightarrow> Set_avoids_published as s1))"

text \<open>
  A schedule in which \<^verbatim>\<open>Swap\<close> publishes a new record after every load of one
  \<^verbatim>\<open>Reader\<close> call, \<open>k\<close> times.
\<close>

fun starve :: "nat \<Rightarrow> 'a action list" where
  "starve 0 = [ReaderCall 0]"
| "starve (Suc k) =
     starve k @ [ReaderLoad 0, SwapEnter, SwapPublish, SwapLockAnnounce, ReaderTryRLock 0,
                 SwapLockAcquire, SwapUnlock, SwapExit]"

text \<open>
  The actions of the reader role: the steps of \<^verbatim>\<open>Reader\<close>, and \<^verbatim>\<open>Get\<close> and \<^verbatim>\<open>Done\<close> on
  a handle. All other actions are steps of \<^verbatim>\<open>Get\<close>, \<^verbatim>\<open>Set\<close> and \<^verbatim>\<open>Swap\<close> of the
  Writer.
\<close>

definition reader_role :: "'a action \<Rightarrow> bool" where
  "reader_role a =
     (case a of
        ReaderCall _ \<Rightarrow> True
      | ReaderLoad _ \<Rightarrow> True
      | ReaderTryRLock _ \<Rightarrow> True
      | ReaderRecheck _ \<Rightarrow> True
      | ReaderRUnlock _ \<Rightarrow> True
      | HandleGet _ \<Rightarrow> True
      | HandleDone _ \<Rightarrow> True
      | _ \<Rightarrow> False)"

text \<open>
  The writer-role actions of a schedule, in their order.
\<close>

definition writer_calls :: "'a action list \<Rightarrow> 'a action list" where
  "writer_calls as = filter (\<lambda>a. \<not> reader_role a) as"

section \<open>Invariants of the interleaved steps\<close>

text \<open>
  The record a \<^verbatim>\<open>Swap\<close> in progress has taken out of the live reference, and the
  part of that time in which readers may still hold it.
\<close>

definition retiring :: "'a wpc \<Rightarrow> ptr option" where
  "retiring pc =
     (case pc of
        SwapPublished p \<Rightarrow> Some p
      | SwapWaiting p \<Rightarrow> Some p
      | SwapHolding p \<Rightarrow> Some p
      | SwapUnlocked p \<Rightarrow> Some p
      | _ \<Rightarrow> None)"

definition draining :: "'a wpc \<Rightarrow> ptr option" where
  "draining pc =
     (case pc of
        SwapPublished p \<Rightarrow> Some p
      | SwapWaiting p \<Rightarrow> Some p
      | _ \<Rightarrow> None)"

text \<open>The exclusive side of the lock of record \<open>p\<close>, read off the place of the writer.\<close>

definition wlock_expected :: "'a wpc \<Rightarrow> ptr \<Rightarrow> wstate" where
  "wlock_expected pc p =
     (if pc = SwapWaiting p then WriterWaiting
      else if pc = SwapHolding p then WriterHolds
      else NoWriter)"

text \<open>The pointer a thread in \<^verbatim>\<open>Reader\<close> has loaded, and whether it holds that record's shared lock.\<close>

definition rpc_ptr :: "rpc \<Rightarrow> ptr option" where
  "rpc_ptr pc = (case pc of RLoaded c \<Rightarrow> Some c | RLocked c \<Rightarrow> Some c | RStale c \<Rightarrow> Some c | _ \<Rightarrow> None)"

definition rpc_holds :: "ptr \<Rightarrow> rpc \<Rightarrow> bool" where
  "rpc_holds p pc \<longleftrightarrow> pc = RLocked p \<or> pc = RStale p"

text \<open>A handle holds the shared lock of its record until \<^verbatim>\<open>Done\<close>.\<close>

definition handle_holds :: "ptr \<Rightarrow> 'a Reader \<Rightarrow> bool" where
  "handle_holds p r \<longleftrightarrow> \<not> reader_done r \<and> reader_mu r = p"

text \<open>The number of shared holders of record \<open>p\<close>: handles not yet released, and threads inside \<^verbatim>\<open>Reader\<close>.\<close>

definition holders :: "ptr \<Rightarrow> 'a Reader list \<Rightarrow> rpc list \<Rightarrow> nat" where
  "holders p hs rs = length (filter (handle_holds p) hs) + length (filter (rpc_holds p) rs)"

text \<open>
  The live record is the last one allocated, the guard is held exactly while a writer
  method runs, and every pointer in use is allocated.
\<close>

definition shape_ok :: "'a system \<Rightarrow> bool" where
  "shape_ok s \<longleftrightarrow>
     Suc (current (shared s)) = length (heap (shared s)) \<and>
     (unsyncWriterCheck (shared s) \<longleftrightarrow> wpc s \<noteq> WIdle) \<and>
     (\<forall>p. retiring (wpc s) = Some p \<longrightarrow> p < current (shared s)) \<and>
     (\<forall>t < length (rpcs s). \<forall>c. rpc_ptr (rpcs s ! t) = Some c \<longrightarrow> c < length (heap (shared s))) \<and>
     (\<forall>h < length (handles s). reader_mu (handles s ! h) < length (heap (shared s)))"

text \<open>Only the record that \<^verbatim>\<open>Swap\<close> retires is ever locked exclusively.\<close>

definition wlocks_ok :: "'a system \<Rightarrow> bool" where
  "wlocks_ok s \<longleftrightarrow>
     (\<forall>p < length (heap (shared s)). wlock (mutex_at p (shared s)) = wlock_expected (wpc s) p)"

text \<open>The reader count of every lock is the number of its holders.\<close>

definition counts_ok :: "'a system \<Rightarrow> bool" where
  "counts_ok s \<longleftrightarrow>
     (\<forall>p < length (heap (shared s)). readerCount (mutex_at p (shared s)) = holders p (handles s) (rpcs s))"

text \<open>
  A handle carries the value of its record, and a handle not yet released is on the live
  record or on the one that \<^verbatim>\<open>Swap\<close> is waiting for.
\<close>

definition handles_ok :: "'a system \<Rightarrow> bool" where
  "handles_ok s \<longleftrightarrow>
     (\<forall>h < length (handles s).
        reader_v (handles s ! h) = cur_v (heap (shared s) ! reader_mu (handles s ! h)) \<and>
        (\<not> reader_done (handles s ! h) \<longrightarrow>
           reader_mu (handles s ! h) = current (shared s) \<or>
           draining (wpc s) = Some (reader_mu (handles s ! h))))"

definition inv :: "'a system \<Rightarrow> bool" where
  "inv s \<longleftrightarrow> shape_ok s \<and> wlocks_ok s \<and> counts_ok s \<and> handles_ok s"

text \<open>
  Outside the exchange of \<^verbatim>\<open>Swap\<close> the writer-side value is not the published one, and
  a \<^verbatim>\<open>Set\<close> in progress does not bring it; between the publication and the end of
  \<^verbatim>\<open>Swap\<close> the writer side still holds the value just published, and the retired record
  holds another one.
\<close>

definition roles_ok :: "'a system \<Rightarrow> bool" where
  "roles_ok s \<longleftrightarrow>
     (case retiring (wpc s) of
        None \<Rightarrow>
          writerValue (shared s) \<noteq> published (shared s) \<and>
          (\<forall>x. wpc s = InSet x \<longrightarrow> x \<noteq> published (shared s))
      | Some p \<Rightarrow>
          cur_v (heap (shared s) ! p) \<noteq> published (shared s) \<and>
          writerValue (shared s) = published (shared s))"

text \<open>
  While \<^verbatim>\<open>Swap\<close> holds the exclusive lock of the retired record, that record has no
  reader.
\<close>

definition holding_ok :: "'a system \<Rightarrow> bool" where
  "holding_ok s \<longleftrightarrow> (\<forall>p. wpc s = SwapHolding p \<longrightarrow> readerCount (mutex_at p (shared s)) = 0)"

text \<open>
  A thread that is about to release a shared lock and retry has loaded a record that is
  no longer live.
\<close>

definition stale_ok :: "'a system \<Rightarrow> bool" where
  "stale_ok s \<longleftrightarrow>
     (\<forall>t < length (rpcs s). \<forall>c. rpcs s ! t = RStale c \<longrightarrow> c \<noteq> current (shared s))"

text \<open>
  Thread \<open>t\<close> is up to date when the pointer it has loaded in \<^verbatim>\<open>Reader\<close>, if any, is
  still the live one and it has not yet seen otherwise; \<open>behind\<close> is 1 when it is not.
\<close>

definition up_to_date :: "nat \<Rightarrow> 'a system \<Rightarrow> bool" where
  "up_to_date t s \<longleftrightarrow>
     (case rpcs s ! t of
        RLoaded c \<Rightarrow> c = current (shared s)
      | RLocked c \<Rightarrow> c = current (shared s)
      | RStale c \<Rightarrow> False
      | _ \<Rightarrow> True)"

definition behind :: "nat \<Rightarrow> 'a system \<Rightarrow> nat" where
  "behind t s = (if up_to_date t s then 0 else 1)"

text \<open>
  A thread at the head of the loop of \<^verbatim>\<open>Reader\<close>, a writer between calls and a live
  record with a zero lock.
\<close>

definition starving :: "'a system \<Rightarrow> bool" where
  "starving s \<longleftrightarrow>
     rpcs s = [RLoop] \<and> wpc s = WIdle \<and> \<not> unsyncWriterCheck (shared s) \<and>
     current (shared s) < length (heap (shared s)) \<and>
     mutex_at (current (shared s)) (shared s) = RWMutex_zero"

subsection \<open>What the writer role sees\<close>

text \<open>
  The position of the writer-role method in progress, with the record that \<^verbatim>\<open>Swap\<close> took
  out of the live reference replaced by the value it holds.
\<close>

datatype 'a phase =
    PIdle
  | PGet
  | PSet 'a
  | PSwap
  | PPublished 'a
  | PWaiting 'a
  | PHolding 'a
  | PUnlocked 'a

definition phase_of :: "'a system \<Rightarrow> 'a phase" where
  "phase_of s =
     (case wpc s of
        WIdle \<Rightarrow> PIdle
      | InGet \<Rightarrow> PGet
      | InSet x \<Rightarrow> PSet x
      | InSwap \<Rightarrow> PSwap
      | SwapPublished p \<Rightarrow> PPublished (cur_v (heap (shared s) ! p))
      | SwapWaiting p \<Rightarrow> PWaiting (cur_v (heap (shared s) ! p))
      | SwapHolding p \<Rightarrow> PHolding (cur_v (heap (shared s) ! p))
      | SwapUnlocked p \<Rightarrow> PUnlocked (cur_v (heap (shared s) ! p)))"

text \<open>
  The part of a state that the writer-role methods read and write: the position, the
  writer-side value and the published value.
\<close>

definition writer_view :: "'a system \<Rightarrow> 'a phase \<times> 'a \<times> 'a" where
  "writer_view s = (phase_of s, writerValue (shared s), published (shared s))"

text \<open>
  The effect of one action on that part; \<open>None\<close> where the action is not enabled. The
  three entry actions leave it unchanged when a method is in progress (they panic), and
  the actions of the reader role always leave it unchanged.
\<close>

fun writer_effect :: "'a action \<Rightarrow> 'a phase \<times> 'a \<times> 'a \<Rightarrow> ('a phase \<times> 'a \<times> 'a) option" where
  "writer_effect GetEnter (ph, v, p) = Some (if ph = PIdle then (PGet, v, p) else (ph, v, p))"
| "writer_effect GetExit (ph, v, p) = (if ph = PGet then Some (PIdle, v, p) else None)"
| "writer_effect (SetEnter x) (ph, v, p) = Some (if ph = PIdle then (PSet x, v, p) else (ph, v, p))"
| "writer_effect SetExit (ph, v, p) = (case ph of PSet x \<Rightarrow> Some (PIdle, x, p) | _ \<Rightarrow> None)"
| "writer_effect SwapEnter (ph, v, p) = Some (if ph = PIdle then (PSwap, v, p) else (ph, v, p))"
| "writer_effect SwapPublish (ph, v, p) = (if ph = PSwap then Some (PPublished p, v, v) else None)"
| "writer_effect SwapLockAnnounce (ph, v, p) =
     (case ph of PPublished old \<Rightarrow> Some (PWaiting old, v, p) | _ \<Rightarrow> None)"
| "writer_effect SwapLockAcquire (ph, v, p) =
     (case ph of PWaiting old \<Rightarrow> Some (PHolding old, v, p) | _ \<Rightarrow> None)"
| "writer_effect SwapUnlock (ph, v, p) =
     (case ph of PHolding old \<Rightarrow> Some (PUnlocked old, v, p) | _ \<Rightarrow> None)"
| "writer_effect SwapExit (ph, v, p) =
     (case ph of PUnlocked old \<Rightarrow> Some (PIdle, old, p) | _ \<Rightarrow> None)"
| "writer_effect _ vw = Some vw"

fun writer_effects :: "'a action list \<Rightarrow> 'a phase \<times> 'a \<times> 'a \<Rightarrow> ('a phase \<times> 'a \<times> 'a) option" where
  "writer_effects [] vw = Some vw"
| "writer_effects (a # as) vw = Option.bind (writer_effect a vw) (writer_effects as)"

section \<open>Worked executions\<close>

text \<open>
  States reached from \<open>init 1 7 8\<close>: after one \<^verbatim>\<open>Reader\<close> call has returned a handle,
  after \<^verbatim>\<open>Done\<close> on that handle, and inside a call of \<^verbatim>\<open>Set(9)\<close>.
\<close>

definition one_handle :: "nat system" where
  "one_handle =
     \<lparr>shared = \<lparr>heap = [\<lparr>rwmutex = \<lparr>readerCount = 1, wlock = NoWriter\<rparr>, cur_v = 7\<rparr>],
                current = 0, unsyncWriterCheck = False, writerValue = 8\<rparr>,
      wpc = WIdle, rpcs = [RIdle],
      handles = [\<lparr>reader_mu = 0, reader_done = False, reader_v = 7\<rparr>]\<rparr>"

definition released_handle :: "nat system" where
  "released_handle =
     \<lparr>shared = \<lparr>heap = [\<lparr>rwmutex = \<lparr>readerCount = 0, wlock = NoWriter\<rparr>, cur_v = 7\<rparr>],
                current = 0, unsyncWriterCheck = False, writerValue = 8\<rparr>,
      wpc = WIdle, rpcs = [RIdle],
      handles = [\<lparr>reader_mu = 0, reader_done = True, reader_v = 7\<rparr>]\<rparr>"

definition inside_Set :: "nat system" where
  "inside_Set =
     \<lparr>shared = \<lparr>heap = [\<lparr>rwmutex = \<lparr>readerCount = 0, wlock = NoWriter\<rparr>, cur_v = 7\<rparr>],
                current = 0, unsyncWriterCheck = True, writerValue = 8\<rparr>,
      wpc = InSet 9, rpcs = [RIdle], handles = []\<rparr>"

text \<open>
  The same execution continued by \<^verbatim>\<open>Swap\<close>: after the guard is taken, after the new
  record is published, while \<^verbatim>\<open>oldReader.Lock()\<close> waits for the handle, and after the
  handle was released and the old record locked and unlocked.
\<close>

definition swap_entered :: "nat system" where
  "swap_entered =
     \<lparr>shared = \<lparr>heap = [\<lparr>rwmutex = \<lparr>readerCount = 1, wlock = NoWriter\<rparr>, cur_v = 7\<rparr>],
                current = 0, unsyncWriterCheck = True, writerValue = 8\<rparr>,
      wpc = InSwap, rpcs = [RIdle],
      handles = [\<lparr>reader_mu = 0, reader_done = False, reader_v = 7\<rparr>]\<rparr>"

definition swap_published :: "nat system" where
  "swap_published =
     \<lparr>shared = \<lparr>heap = [\<lparr>rwmutex = \<lparr>readerCount = 1, wlock = NoWriter\<rparr>, cur_v = 7\<rparr>,
                        \<lparr>rwmutex = \<lparr>readerCount = 0, wlock = NoWriter\<rparr>, cur_v = 8\<rparr>],
                current = 1, unsyncWriterCheck = True, writerValue = 8\<rparr>,
      wpc = SwapPublished 0, rpcs = [RIdle],
      handles = [\<lparr>reader_mu = 0, reader_done = False, reader_v = 7\<rparr>]\<rparr>"

definition swap_waiting :: "nat system" where
  "swap_waiting =
     \<lparr>shared = \<lparr>heap = [\<lparr>rwmutex = \<lparr>readerCount = 1, wlock = WriterWaiting\<rparr>, cur_v = 7\<rparr>,
                        \<lparr>rwmutex = \<lparr>readerCount = 0, wlock = NoWriter\<rparr>, cur_v = 8\<rparr>],
                current = 1, unsyncWriterCheck = True, writerValue = 8\<rparr>,
      wpc = SwapWaiting 0, rpcs = [RIdle],
      handles = [\<lparr>reader_mu = 0, reader_done = False, reader_v = 7\<rparr>]\<rparr>"

definition swap_unlocked :: "nat system" where
  "swap_unlocked =
     \<lparr>shared = \<lparr>heap = [\<lparr>rwmutex = \<lparr>readerCount = 0, wlock = NoWriter\<rparr>, cur_v = 7\<rparr>,
                        \<lparr>rwmutex = \<lparr>readerCount = 0, wlock = NoWriter\<rparr>, cur_v = 8\<rparr>],
                current = 1, unsyncWriterCheck = True, writerValue = 8\<rparr>,
      wpc = SwapUnlocked 0, rpcs = [RIdle],
      handles = [\<lparr>reader_mu = 0, reader_done = True, reader_v = 7\<rparr>]\<rparr>"

text \<open>
  \<^verbatim>\<open>Set(9)\<close> and a whole \<^verbatim>\<open>Swap\<close> from \<open>init 1 7 8\<close>.
\<close>

definition swapped_once :: "nat system" where
  "swapped_once =
     \<lparr>shared = \<lparr>heap = [\<lparr>rwmutex = \<lparr>readerCount = 0, wlock = NoWriter\<rparr>, cur_v = 7\<rparr>,
                        \<lparr>rwmutex = \<lparr>readerCount = 0, wlock = NoWriter\<rparr>, cur_v = 9\<rparr>],
                current = 1, unsyncWriterCheck = False, writerValue = 7\<rparr>,
      wpc = WIdle, rpcs = [RIdle], handles = []\<rparr>"

text \<open>
  A thread that took the shared lock of record 0 just before \<^verbatim>\<open>Swap\<close> published
  record 1.
\<close>

definition stale_locked :: "nat system" where
  "stale_locked =
     \<lparr>shared = \<lparr>heap = [\<lparr>rwmutex = \<lparr>readerCount = 1, wlock = NoWriter\<rparr>, cur_v = 7\<rparr>,
                        \<lparr>rwmutex = \<lparr>readerCount = 0, wlock = NoWriter\<rparr>, cur_v = 8\<rparr>],
                current = 1, unsyncWriterCheck = True, writerValue = 8\<rparr>,
      wpc = SwapPublished 0, rpcs = [RLocked 0], handles = []\<rparr>"

text \<open>
  A thread that loaded record 0, then took its shared lock and loaded again only after a
  whole \<^verbatim>\<open>Swap\<close> had run.
\<close>

definition late_reader :: "nat system" where
  "late_reader =
     \<lparr>shared = \<lparr>heap = [\<lparr>rwmutex = \<lparr>readerCount = 1, wlock = NoWriter\<rparr>, cur_v = 7\<rparr>,
                        \<lparr>rwmutex = \<lparr>readerCount = 0, wlock = NoWriter\<rparr>, cur_v = 8\<rparr>],
                current = 1, unsyncWriterCheck = False, writerValue = 7\<rparr>,
      wpc = WIdle, rpcs = [RStale 0], handles = []\<rparr>"

text \<open>
  \<^verbatim>\<open>one_handle\<close> after \<^verbatim>\<open>Set(9)\<close> and a \<^verbatim>\<open>Swap\<close> during which the handle was released.
\<close>

definition set_and_swapped :: "nat system" where
  "set_and_swapped =
     \<lparr>shared = \<lparr>heap = [\<lparr>rwmutex = \<lparr>readerCount = 0, wlock = NoWriter\<rparr>, cur_v = 7\<rparr>,
                        \<lparr>rwmutex = \<lparr>readerCount = 0, wlock = NoWriter\<rparr>, cur_v = 9\<rparr>],
                current = 1, unsyncWriterCheck = False, writerValue = 7\<rparr>,
      wpc = WIdle, rpcs = [RIdle],
      handles = [\<lparr>reader_mu = 0, reader_done = True, reader_v = 7\<rparr>]\<rparr>"

text \<open>
  \<^verbatim>\<open>New([42], [-1])\<close> with one reader thread, after \<^verbatim>\<open>Swap\<close>.
\<close>

definition swapped_42 :: "int list system" where
  "swapped_42 =
     \<lparr>shared = \<lparr>heap = [\<lparr>rwmutex = \<lparr>readerCount = 0, wlock = NoWriter\<rparr>, cur_v = [42]\<rparr>,
                        \<lparr>rwmutex = \<lparr>readerCount = 0, wlock = NoWriter\<rparr>, cur_v = [-1]\<rparr>],
                current = 1, unsyncWriterCheck = False, writerValue = [42]\<rparr>,
      wpc = WIdle, rpcs = [RIdle], handles = []\<rparr>"

section \<open>Basic facts\<close>

lemmas lockdefs = TryRLock_def RUnlock_def LockAnnounce_def LockAcquire_def Lock_def Unlock_def RWMutex_zero_def
lemmas stmtdefs = guard_TryLock_def guard_Unlock_def publish_def absorb_def

lemma length_heap_set_mutex [simp]: "length (heap (set_mutex p m w)) = length (heap w)"
  by (simp add: set_mutex_def)
lemma current_set_mutex [simp]: "current (set_mutex p m w) = current w"
  by (simp add: set_mutex_def)
lemma guard_set_mutex [simp]: "unsyncWriterCheck (set_mutex p m w) = unsyncWriterCheck w"
  by (simp add: set_mutex_def)
lemma writerValue_set_mutex [simp]: "writerValue (set_mutex p m w) = writerValue w"
  by (simp add: set_mutex_def)
lemma cur_v_set_mutex [simp]: "cur_v (heap (set_mutex p m w) ! q) = cur_v (heap w ! q)"
  by (cases "p < length (heap w)"; cases "p = q"; simp add: set_mutex_def list_update_beyond)
lemma mutex_at_set_mutex:
  "q < length (heap w) \<Longrightarrow> mutex_at p (set_mutex q m w) = (if p = q then m else mutex_at p w)"
  by (simp add: mutex_at_def set_mutex_def)

lemma length_filter_update:
  "i < length xs \<Longrightarrow>
   length (filter P (xs[i := y])) + (if P (xs ! i) then 1 else 0) =
   length (filter P xs) + (if P y then 1 else 0)"
proof (induction xs arbitrary: i)
  case Nil
  then show ?case by simp
next
  case (Cons x xs)
  show ?case
  proof (cases i)
    case 0
    then show ?thesis by simp
  next
    case (Suc j)
    with Cons.prems have "j < length xs" by simp
    from Cons.IH [OF this] Suc show ?thesis by simp
  qed
qed

subsection \<open>The shape of a state\<close>

lemma shape_init: "shape_ok (init n r0 w0)"
  by (simp add: shape_ok_def init_def New_def retiring_def rpc_ptr_def)

lemma shape_enter:
  "shape_ok s \<Longrightarrow> guard_TryLock (shared s) = Some w1 \<Longrightarrow> pc \<in> {InGet, InSet x, InSwap} \<Longrightarrow>
   shape_ok (s\<lparr>shared := w1, wpc := pc\<rparr>)"
  by (auto simp: shape_ok_def guard_TryLock_def retiring_def split: if_splits)

lemma shape_GetEnter: "shape_ok s \<Longrightarrow> step GetEnter s = Some (ob, s1) \<Longrightarrow> shape_ok s1"
  by (auto split: option.splits intro: shape_enter)

lemma shape_SetEnter: "shape_ok s \<Longrightarrow> step (SetEnter x) s = Some (ob, s1) \<Longrightarrow> shape_ok s1"
  by (auto split: option.splits intro: shape_enter)

lemma shape_SwapEnter: "shape_ok s \<Longrightarrow> step SwapEnter s = Some (ob, s1) \<Longrightarrow> shape_ok s1"
  by (auto split: option.splits intro: shape_enter)

lemma shape_GetExit: "shape_ok s \<Longrightarrow> step GetExit s = Some (ob, s1) \<Longrightarrow> shape_ok s1"
  by (auto simp: shape_ok_def guard_Unlock_def retiring_def split: wpc.splits)

lemma shape_SetExit: "shape_ok s \<Longrightarrow> step SetExit s = Some (ob, s1) \<Longrightarrow> shape_ok s1"
  by (auto simp: shape_ok_def guard_Unlock_def retiring_def split: wpc.splits)

lemma shape_SwapPublish: "shape_ok s \<Longrightarrow> step SwapPublish s = Some (ob, s1) \<Longrightarrow> shape_ok s1"
  by (auto simp: shape_ok_def publish_def retiring_def less_Suc_eq split: wpc.splits)

lemma shape_SwapLockAnnounce: "shape_ok s \<Longrightarrow> step SwapLockAnnounce s = Some (ob, s1) \<Longrightarrow> shape_ok s1"
  by (auto simp: shape_ok_def retiring_def split: wpc.splits option.splits)

lemma shape_SwapLockAcquire: "shape_ok s \<Longrightarrow> step SwapLockAcquire s = Some (ob, s1) \<Longrightarrow> shape_ok s1"
  by (auto simp: shape_ok_def retiring_def split: wpc.splits option.splits)

lemma shape_SwapUnlock: "shape_ok s \<Longrightarrow> step SwapUnlock s = Some (ob, s1) \<Longrightarrow> shape_ok s1"
  by (auto simp: shape_ok_def retiring_def split: wpc.splits option.splits)

lemma shape_SwapExit: "shape_ok s \<Longrightarrow> step SwapExit s = Some (ob, s1) \<Longrightarrow> shape_ok s1"
  by (auto simp: shape_ok_def retiring_def guard_Unlock_def absorb_def split: wpc.splits option.splits)

lemma shape_rpc_update:
  "shape_ok s \<Longrightarrow> t < length (rpcs s) \<Longrightarrow>
   \<forall>c. rpc_ptr pc = Some c \<longrightarrow> c < length (heap (shared s)) \<Longrightarrow>
   shape_ok (s\<lparr>rpcs := (rpcs s)[t := pc]\<rparr>)"
  by (auto simp: shape_ok_def nth_list_update)

lemma shape_set_mutex:
  "shape_ok s \<Longrightarrow> shape_ok (s\<lparr>shared := set_mutex p m (shared s)\<rparr>)"
  by (auto simp: shape_ok_def)

lemma shape_ReaderCall: "shape_ok s \<Longrightarrow> step (ReaderCall t) s = Some (ob, s1) \<Longrightarrow> shape_ok s1"
  by (auto simp: rpc_ptr_def split: if_splits intro!: shape_rpc_update)

lemma shape_ReaderLoad: "shape_ok s \<Longrightarrow> step (ReaderLoad t) s = Some (ob, s1) \<Longrightarrow> shape_ok s1"
  by (auto simp: rpc_ptr_def split: if_splits intro!: shape_rpc_update) (simp add: shape_ok_def)

lemma shape_ReaderTryRLock: "shape_ok s \<Longrightarrow> step (ReaderTryRLock t) s = Some (ob, s1) \<Longrightarrow> shape_ok s1"
  by (auto simp: rpc_ptr_def shape_ok_def nth_list_update split: if_splits rpc.splits prod.splits)

lemma shape_ReaderRecheck: "shape_ok s \<Longrightarrow> step (ReaderRecheck t) s = Some (ob, s1) \<Longrightarrow> shape_ok s1"
  by (auto simp: rpc_ptr_def shape_ok_def nth_list_update nth_append split: if_splits rpc.splits)

lemma shape_ReaderRUnlock: "shape_ok s \<Longrightarrow> step (ReaderRUnlock t) s = Some (ob, s1) \<Longrightarrow> shape_ok s1"
  by (auto simp: rpc_ptr_def shape_ok_def nth_list_update split: if_splits rpc.splits option.splits)

lemma shape_HandleGet: "shape_ok s \<Longrightarrow> step (HandleGet h) s = Some (ob, s1) \<Longrightarrow> shape_ok s1"
  by (auto simp: shape_ok_def nth_list_update Reader_Get_def split: if_splits)

lemma shape_HandleDone: "shape_ok s \<Longrightarrow> step (HandleDone h) s = Some (ob, s1) \<Longrightarrow> shape_ok s1"
  by (auto simp: shape_ok_def nth_list_update Reader_Done_def Let_def split: if_splits option.splits)

lemma shape_step: "shape_ok s \<Longrightarrow> step a s = Some (ob, s1) \<Longrightarrow> shape_ok s1"
  by (cases a) (blast intro: shape_GetEnter shape_GetExit shape_SetEnter shape_SetExit shape_SwapEnter
      shape_SwapPublish shape_SwapLockAnnounce shape_SwapLockAcquire shape_SwapUnlock shape_SwapExit
      shape_ReaderCall shape_ReaderLoad shape_ReaderTryRLock shape_ReaderRecheck shape_ReaderRUnlock
      shape_HandleGet shape_HandleDone)+

subsection \<open>The exclusive side of the locks\<close>

lemma mutex_at_guard [simp]: "mutex_at p (w\<lparr>unsyncWriterCheck := b\<rparr>) = mutex_at p w"
  by (simp add: mutex_at_def)
lemma mutex_at_writerValue [simp]: "mutex_at p (w\<lparr>writerValue := x\<rparr>) = mutex_at p w"
  by (simp add: mutex_at_def)
lemma heap_guard_Unlock [simp]: "heap (guard_Unlock w) = heap w"
  by (simp add: guard_Unlock_def)
lemma mutex_at_guard_Unlock [simp]: "mutex_at p (guard_Unlock w) = mutex_at p w"
  by (simp add: guard_Unlock_def)
lemma mutex_at_absorb [simp]: "mutex_at p (absorb q w) = mutex_at p w"
  by (simp add: absorb_def)
lemma heap_absorb [simp]: "heap (absorb q w) = heap w"
  by (simp add: absorb_def)

lemma wlocks_init: "wlocks_ok (init n r0 w0)"
  by (simp add: wlocks_ok_def init_def New_def wlock_expected_def mutex_at_def RWMutex_zero_def)

lemma wlocks_enter:
  "wlocks_ok s \<Longrightarrow> shape_ok s \<Longrightarrow> guard_TryLock (shared s) = Some w1 \<Longrightarrow> pc \<in> {InGet, InSet x, InSwap} \<Longrightarrow>
   wlocks_ok (s\<lparr>shared := w1, wpc := pc\<rparr>)"
  by (auto simp: wlocks_ok_def shape_ok_def guard_TryLock_def wlock_expected_def split: if_splits)

lemma wlocks_GetEnter: "wlocks_ok s \<Longrightarrow> shape_ok s \<Longrightarrow> step GetEnter s = Some (ob, s1) \<Longrightarrow> wlocks_ok s1"
  by (auto split: option.splits intro: wlocks_enter)

lemma wlocks_SetEnter: "wlocks_ok s \<Longrightarrow> shape_ok s \<Longrightarrow> step (SetEnter x) s = Some (ob, s1) \<Longrightarrow> wlocks_ok s1"
  by (auto split: option.splits intro: wlocks_enter)

lemma wlocks_SwapEnter: "wlocks_ok s \<Longrightarrow> shape_ok s \<Longrightarrow> step SwapEnter s = Some (ob, s1) \<Longrightarrow> wlocks_ok s1"
  by (auto split: option.splits intro: wlocks_enter)

lemma wlocks_GetExit: "wlocks_ok s \<Longrightarrow> step GetExit s = Some (ob, s1) \<Longrightarrow> wlocks_ok s1"
  by (auto simp: wlocks_ok_def wlock_expected_def split: wpc.splits)

lemma wlocks_SetExit: "wlocks_ok s \<Longrightarrow> step SetExit s = Some (ob, s1) \<Longrightarrow> wlocks_ok s1"
  by (auto simp: wlocks_ok_def wlock_expected_def split: wpc.splits)

lemma wlocks_SwapPublish: "wlocks_ok s \<Longrightarrow> step SwapPublish s = Some (ob, s1) \<Longrightarrow> wlocks_ok s1"
  by (auto simp: wlocks_ok_def wlock_expected_def publish_def mutex_at_def nth_append RWMutex_zero_def
      split: wpc.splits)

lemma wlocks_SwapLockAnnounce:
  "wlocks_ok s \<Longrightarrow> shape_ok s \<Longrightarrow> step SwapLockAnnounce s = Some (ob, s1) \<Longrightarrow> wlocks_ok s1"
  by (auto simp: wlocks_ok_def shape_ok_def retiring_def wlock_expected_def mutex_at_set_mutex
      LockAnnounce_def split: wpc.splits option.splits if_splits)

lemma wlocks_SwapLockAcquire:
  "wlocks_ok s \<Longrightarrow> shape_ok s \<Longrightarrow> step SwapLockAcquire s = Some (ob, s1) \<Longrightarrow> wlocks_ok s1"
  by (auto simp: wlocks_ok_def shape_ok_def retiring_def wlock_expected_def mutex_at_set_mutex
      LockAcquire_def split: wpc.splits option.splits if_splits)

lemma wlocks_SwapUnlock:
  "wlocks_ok s \<Longrightarrow> shape_ok s \<Longrightarrow> step SwapUnlock s = Some (ob, s1) \<Longrightarrow> wlocks_ok s1"
  by (auto simp: wlocks_ok_def shape_ok_def retiring_def wlock_expected_def mutex_at_set_mutex
      Unlock_def split: wpc.splits option.splits if_splits)

lemma wlocks_SwapExit: "wlocks_ok s \<Longrightarrow> step SwapExit s = Some (ob, s1) \<Longrightarrow> wlocks_ok s1"
  by (auto simp: wlocks_ok_def wlock_expected_def split: wpc.splits)

lemma wlocks_ReaderCall: "wlocks_ok s \<Longrightarrow> step (ReaderCall t) s = Some (ob, s1) \<Longrightarrow> wlocks_ok s1"
  by (auto simp: wlocks_ok_def split: if_splits)

lemma wlocks_ReaderLoad: "wlocks_ok s \<Longrightarrow> step (ReaderLoad t) s = Some (ob, s1) \<Longrightarrow> wlocks_ok s1"
  by (auto simp: wlocks_ok_def split: if_splits)

lemma wlocks_ReaderTryRLock:
  "wlocks_ok s \<Longrightarrow> shape_ok s \<Longrightarrow> step (ReaderTryRLock t) s = Some (ob, s1) \<Longrightarrow> wlocks_ok s1"
  by (auto simp: wlocks_ok_def shape_ok_def rpc_ptr_def mutex_at_set_mutex TryRLock_def
      split: if_splits rpc.splits)

lemma wlocks_ReaderRecheck: "wlocks_ok s \<Longrightarrow> step (ReaderRecheck t) s = Some (ob, s1) \<Longrightarrow> wlocks_ok s1"
  by (auto simp: wlocks_ok_def split: if_splits rpc.splits)

lemma wlocks_ReaderRUnlock:
  "wlocks_ok s \<Longrightarrow> shape_ok s \<Longrightarrow> step (ReaderRUnlock t) s = Some (ob, s1) \<Longrightarrow> wlocks_ok s1"
  by (auto simp: wlocks_ok_def shape_ok_def rpc_ptr_def mutex_at_set_mutex RUnlock_def
      split: if_splits rpc.splits option.splits)

lemma wlocks_HandleGet: "wlocks_ok s \<Longrightarrow> step (HandleGet h) s = Some (ob, s1) \<Longrightarrow> wlocks_ok s1"
  by (auto simp: wlocks_ok_def Reader_Get_def split: if_splits)

lemma wlocks_HandleDone:
  "wlocks_ok s \<Longrightarrow> shape_ok s \<Longrightarrow> step (HandleDone h) s = Some (ob, s1) \<Longrightarrow> wlocks_ok s1"
  by (auto simp: wlocks_ok_def shape_ok_def Reader_Done_def Let_def mutex_at_set_mutex RUnlock_def
      split: if_splits option.splits)

lemma wlocks_step: "wlocks_ok s \<Longrightarrow> shape_ok s \<Longrightarrow> step a s = Some (ob, s1) \<Longrightarrow> wlocks_ok s1"
  by (cases a) (blast intro: wlocks_GetEnter wlocks_GetExit wlocks_SetEnter wlocks_SetExit wlocks_SwapEnter
      wlocks_SwapPublish wlocks_SwapLockAnnounce wlocks_SwapLockAcquire wlocks_SwapUnlock wlocks_SwapExit
      wlocks_ReaderCall wlocks_ReaderLoad wlocks_ReaderTryRLock wlocks_ReaderRecheck wlocks_ReaderRUnlock
      wlocks_HandleGet wlocks_HandleDone)+

subsection \<open>The reader counts\<close>

lemma shape_rpc_ptr:
  "shape_ok s \<Longrightarrow> t < length (rpcs s) \<Longrightarrow> rpc_ptr (rpcs s ! t) = Some c \<Longrightarrow>
   c < length (heap (shared s))"
  by (simp add: shape_ok_def)

lemma shape_handle_ptr:
  "shape_ok s \<Longrightarrow> h < length (handles s) \<Longrightarrow> reader_mu (handles s ! h) < length (heap (shared s))"
  by (simp add: shape_ok_def)

lemma holders_fresh:
  assumes "shape_ok s" and "length (heap (shared s)) \<le> p"
  shows "holders p (handles s) (rpcs s) = 0"
proof -
  have "\<not> handle_holds p r" if "r \<in> set (handles s)" for r
  proof -
    from that obtain h where "h < length (handles s)" "r = handles s ! h"
      by (auto simp: in_set_conv_nth)
    with shape_handle_ptr [OF assms(1), of h] assms(2) show ?thesis
      by (auto simp: handle_holds_def)
  qed
  moreover have "\<not> rpc_holds p pc" if "pc \<in> set (rpcs s)" for pc
  proof -
    from that obtain t where "t < length (rpcs s)" "pc = rpcs s ! t"
      by (auto simp: in_set_conv_nth)
    with shape_rpc_ptr [OF assms(1), of t p] assms(2) show ?thesis
      by (auto simp: rpc_holds_def rpc_ptr_def)
  qed
  ultimately show ?thesis
    by (simp add: holders_def filter_empty_conv)
qed

lemma holders_rpc_update:
  "t < length rs \<Longrightarrow>
   holders p hs (rs[t := pc]) + (if rpc_holds p (rs ! t) then 1 else 0) =
   holders p hs rs + (if rpc_holds p pc then 1 else 0)"
  using length_filter_update [of t rs "rpc_holds p" pc] by (simp add: holders_def)

lemma holders_handle_update:
  "h < length hs \<Longrightarrow>
   holders p (hs[h := r]) rs + (if handle_holds p (hs ! h) then 1 else 0) =
   holders p hs rs + (if handle_holds p r then 1 else 0)"
  using length_filter_update [of h hs "handle_holds p" r] by (simp add: holders_def)

lemma holders_handle_append:
  "holders p (hs @ [r]) rs = holders p hs rs + (if handle_holds p r then 1 else 0)"
  by (simp add: holders_def)

lemma counts_init: "counts_ok (init n r0 w0)"
  by (simp add: counts_ok_def init_def New_def holders_def mutex_at_def RWMutex_zero_def rpc_holds_def)

lemma counts_enter:
  "counts_ok s \<Longrightarrow> guard_TryLock (shared s) = Some w1 \<Longrightarrow> counts_ok (s\<lparr>shared := w1, wpc := pc\<rparr>)"
  by (auto simp: counts_ok_def guard_TryLock_def split: if_splits)

lemma counts_GetEnter: "counts_ok s \<Longrightarrow> step GetEnter s = Some (ob, s1) \<Longrightarrow> counts_ok s1"
  by (auto split: option.splits intro: counts_enter)

lemma counts_SetEnter: "counts_ok s \<Longrightarrow> step (SetEnter x) s = Some (ob, s1) \<Longrightarrow> counts_ok s1"
  by (auto split: option.splits intro: counts_enter)

lemma counts_SwapEnter: "counts_ok s \<Longrightarrow> step SwapEnter s = Some (ob, s1) \<Longrightarrow> counts_ok s1"
  by (auto split: option.splits intro: counts_enter)

lemma counts_GetExit: "counts_ok s \<Longrightarrow> step GetExit s = Some (ob, s1) \<Longrightarrow> counts_ok s1"
  by (auto simp: counts_ok_def split: wpc.splits)

lemma counts_SetExit: "counts_ok s \<Longrightarrow> step SetExit s = Some (ob, s1) \<Longrightarrow> counts_ok s1"
  by (auto simp: counts_ok_def split: wpc.splits)

lemma counts_SwapPublish:
  "counts_ok s \<Longrightarrow> shape_ok s \<Longrightarrow> step SwapPublish s = Some (ob, s1) \<Longrightarrow> counts_ok s1"
  by (auto simp: counts_ok_def publish_def mutex_at_def nth_append RWMutex_zero_def holders_fresh
      less_Suc_eq split: wpc.splits)

lemma counts_SwapLockAnnounce:
  "counts_ok s \<Longrightarrow> shape_ok s \<Longrightarrow> step SwapLockAnnounce s = Some (ob, s1) \<Longrightarrow> counts_ok s1"
  by (auto simp: counts_ok_def shape_ok_def retiring_def mutex_at_set_mutex
      LockAnnounce_def split: wpc.splits option.splits if_splits)

lemma counts_SwapLockAcquire:
  "counts_ok s \<Longrightarrow> shape_ok s \<Longrightarrow> step SwapLockAcquire s = Some (ob, s1) \<Longrightarrow> counts_ok s1"
  by (auto simp: counts_ok_def shape_ok_def retiring_def mutex_at_set_mutex
      LockAcquire_def split: wpc.splits option.splits if_splits)

lemma counts_SwapUnlock:
  "counts_ok s \<Longrightarrow> shape_ok s \<Longrightarrow> step SwapUnlock s = Some (ob, s1) \<Longrightarrow> counts_ok s1"
  by (auto simp: counts_ok_def shape_ok_def retiring_def mutex_at_set_mutex
      Unlock_def split: wpc.splits option.splits if_splits)

lemma counts_SwapExit: "counts_ok s \<Longrightarrow> step SwapExit s = Some (ob, s1) \<Longrightarrow> counts_ok s1"
  by (auto simp: counts_ok_def split: wpc.splits)

lemma counts_ReaderCall: "counts_ok s \<Longrightarrow> step (ReaderCall t) s = Some (ob, s1) \<Longrightarrow> counts_ok s1"
proof -
  assume c: "counts_ok s" and st: "step (ReaderCall t) s = Some (ob, s1)"
  from st have t: "t < length (rpcs s)" and pc: "rpcs s ! t = RIdle"
    and s1: "s1 = s\<lparr>rpcs := (rpcs s)[t := RLoop]\<rparr>"
    by (auto split: if_splits)
  have "holders p (handles s1) (rpcs s1) = holders p (handles s) (rpcs s)" for p
    using holders_rpc_update [OF t, where p = p and hs = "handles s" and pc = "RLoop"] by (simp add: s1 pc rpc_holds_def)
  with c show ?thesis by (simp add: counts_ok_def s1)
qed

lemma counts_ReaderLoad: "counts_ok s \<Longrightarrow> step (ReaderLoad t) s = Some (ob, s1) \<Longrightarrow> counts_ok s1"
proof -
  assume c: "counts_ok s" and st: "step (ReaderLoad t) s = Some (ob, s1)"
  from st have t: "t < length (rpcs s)" and pc: "rpcs s ! t = RLoop"
    and s1: "s1 = s\<lparr>rpcs := (rpcs s)[t := RLoaded (current (shared s))]\<rparr>"
    by (auto split: if_splits)
  have "holders p (handles s1) (rpcs s1) = holders p (handles s) (rpcs s)" for p
    using holders_rpc_update [OF t, where p = p and hs = "handles s" and pc = "RLoaded (current (shared s))"] by (simp add: s1 pc rpc_holds_def)
  with c show ?thesis by (simp add: counts_ok_def s1)
qed

lemma counts_ReaderTryRLock:
  assumes c: "counts_ok s" and sh: "shape_ok s" and st: "step (ReaderTryRLock t) s = Some (ob, s1)"
  shows "counts_ok s1"
proof -
  from st obtain q where t: "t < length (rpcs s)" and pc: "rpcs s ! t = RLoaded q"
    by (auto split: if_splits rpc.splits)
  from shape_rpc_ptr [OF sh t, of q] pc have q: "q < length (heap (shared s))"
    by (simp add: rpc_ptr_def)
  show ?thesis
  proof (cases "wlock (mutex_at q (shared s)) = NoWriter")
    case False
    with st t pc have s1: "s1 = s\<lparr>rpcs := (rpcs s)[t := RLoop]\<rparr>"
      by (simp add: TryRLock_def)
    have "holders p (handles s1) (rpcs s1) = holders p (handles s) (rpcs s)" for p
      using holders_rpc_update [OF t, where p = p and hs = "handles s" and pc = "RLoop"] by (simp add: s1 pc rpc_holds_def)
    with c show ?thesis by (simp add: counts_ok_def s1)
  next
    case True
    with st t pc have s1:
      "s1 = s\<lparr>shared := set_mutex q ((mutex_at q (shared s))\<lparr>readerCount := Suc (readerCount (mutex_at q (shared s)))\<rparr>) (shared s),
              rpcs := (rpcs s)[t := RLocked q]\<rparr>"
      by (simp add: TryRLock_def)
    have "holders p (handles s1) (rpcs s1) = holders p (handles s) (rpcs s) + (if p = q then 1 else 0)" for p
      using holders_rpc_update [OF t, where p = p and hs = "handles s" and pc = "RLocked q"] by (auto simp: s1 pc rpc_holds_def)
    with c q show ?thesis by (simp add: counts_ok_def s1 mutex_at_set_mutex)
  qed
qed

lemma counts_ReaderRecheck:
  assumes c: "counts_ok s" and st: "step (ReaderRecheck t) s = Some (ob, s1)"
  shows "counts_ok s1"
proof -
  from st obtain q where t: "t < length (rpcs s)" and pc: "rpcs s ! t = RLocked q"
    by (auto split: if_splits rpc.splits)
  show ?thesis
  proof (cases "q = current (shared s)")
    case False
    with st t pc have s1: "s1 = s\<lparr>rpcs := (rpcs s)[t := RStale q]\<rparr>"
      by simp
    have "holders p (handles s1) (rpcs s1) = holders p (handles s) (rpcs s)" for p
      using holders_rpc_update [OF t, where p = p and hs = "handles s" and pc = "RStale q"] by (auto simp: s1 pc rpc_holds_def)
    with c show ?thesis by (simp add: counts_ok_def s1)
  next
    case True
    define r where "r = \<lparr>reader_mu = q, reader_done = False, reader_v = cur_v (heap (shared s) ! q)\<rparr>"
    from True st t pc have s1: "s1 = s\<lparr>rpcs := (rpcs s)[t := RIdle], handles := handles s @ [r]\<rparr>"
      by (simp add: r_def)
    have "holders p (handles s) ((rpcs s)[t := RIdle]) + (if p = q then 1 else 0) = holders p (handles s) (rpcs s)" for p
      using holders_rpc_update [OF t, where p = p and hs = "handles s" and pc = "RIdle"] by (auto simp: pc rpc_holds_def)
    moreover have "holders p (handles s1) (rpcs s1) = holders p (handles s) ((rpcs s)[t := RIdle]) + (if p = q then 1 else 0)" for p
      using holders_handle_append [where p = p and hs = "handles s" and r = r and rs = "(rpcs s)[t := RIdle]"]
      by (simp add: s1 r_def handle_holds_def)
    ultimately have "holders p (handles s1) (rpcs s1) = holders p (handles s) (rpcs s)" for p by simp
    with c show ?thesis by (simp add: counts_ok_def s1)
  qed
qed

lemma counts_ReaderRUnlock:
  assumes c: "counts_ok s" and sh: "shape_ok s" and st: "step (ReaderRUnlock t) s = Some (ob, s1)"
  shows "counts_ok s1"
proof -
  from st obtain q where t: "t < length (rpcs s)" and pc: "rpcs s ! t = RStale q"
    by (auto split: if_splits rpc.splits)
  from shape_rpc_ptr [OF sh t, of q] pc have q: "q < length (heap (shared s))"
    by (simp add: rpc_ptr_def)
  show ?thesis
  proof (cases "readerCount (mutex_at q (shared s)) = 0")
    case True
    with st t pc have "s1 = s" by (simp add: RUnlock_def)
    with c show ?thesis by simp
  next
    case False
    with st t pc have s1:
      "s1 = s\<lparr>shared := set_mutex q ((mutex_at q (shared s))\<lparr>readerCount := readerCount (mutex_at q (shared s)) - 1\<rparr>) (shared s),
              rpcs := (rpcs s)[t := RLoop]\<rparr>"
      by (simp add: RUnlock_def)
    have "holders p (handles s1) (rpcs s1) + (if p = q then 1 else 0) = holders p (handles s) (rpcs s)" for p
      using holders_rpc_update [OF t, where p = p and hs = "handles s" and pc = "RLoop"] by (auto simp: s1 pc rpc_holds_def)
    then have "holders p (handles s1) (rpcs s1) = holders p (handles s) (rpcs s) - (if p = q then 1 else 0)" for p
      by (metis add_diff_cancel_right')
    with c q show ?thesis by (simp add: counts_ok_def s1 mutex_at_set_mutex)
  qed
qed

lemma Reader_Get_handle: "snd (Reader_Get r) = r"
  by (simp add: Reader_Get_def)

lemma counts_HandleGet: "counts_ok s \<Longrightarrow> step (HandleGet h) s = Some (ob, s1) \<Longrightarrow> counts_ok s1"
  by (auto simp: Reader_Get_def split: if_splits)

lemma counts_HandleDone:
  assumes c: "counts_ok s" and sh: "shape_ok s" and st: "step (HandleDone h) s = Some (ob, s1)"
  shows "counts_ok s1"
proof -
  from st have h: "h < length (handles s)"
    by (auto split: if_splits)
  define r where "r = handles s ! h"
  define q where "q = reader_mu r"
  from shape_handle_ptr [OF sh h] have q: "q < length (heap (shared s))"
    by (simp add: q_def r_def)
  show ?thesis
  proof (cases "reader_done r")
    case True
    with st h have "s1 = s" by (simp add: Reader_Done_def r_def)
    with c show ?thesis by simp
  next
    case False
    from c q have rc: "readerCount (mutex_at q (shared s)) = holders q (handles s) (rpcs s)"
      by (simp add: counts_ok_def)
    have "handle_holds q r" using False by (simp add: handle_holds_def q_def)
    then have "r \<in> set (filter (handle_holds q) (handles s))"
      using h by (simp add: r_def)
    then have "0 < length (filter (handle_holds q) (handles s))"
      by (rule length_pos_if_in_set)
    then have "0 < holders q (handles s) (rpcs s)" by (simp add: holders_def)
    with rc have pos: "readerCount (mutex_at q (shared s)) \<noteq> 0" by simp
    with st h False have s1:
      "s1 = s\<lparr>shared := set_mutex q ((mutex_at q (shared s))\<lparr>readerCount := readerCount (mutex_at q (shared s)) - 1\<rparr>) (shared s),
              handles := (handles s)[h := r\<lparr>reader_done := True\<rparr>]\<rparr>"
      by (simp add: Reader_Done_def RUnlock_def r_def q_def Let_def)
    have "holders p (handles s1) (rpcs s1) + (if p = q then 1 else 0) = holders p (handles s) (rpcs s)" for p
      using holders_handle_update [OF h, where p = p and r = "r\<lparr>reader_done := True\<rparr>" and rs = "rpcs s"] False
      by (auto simp: s1 handle_holds_def r_def q_def)
    then have "holders p (handles s1) (rpcs s1) = holders p (handles s) (rpcs s) - (if p = q then 1 else 0)" for p
      by (metis add_diff_cancel_right')
    with c q show ?thesis by (simp add: counts_ok_def s1 mutex_at_set_mutex)
  qed
qed

lemma counts_step: "counts_ok s \<Longrightarrow> shape_ok s \<Longrightarrow> step a s = Some (ob, s1) \<Longrightarrow> counts_ok s1"
  by (cases a) (blast intro: counts_GetEnter counts_GetExit counts_SetEnter counts_SetExit counts_SwapEnter
      counts_SwapPublish counts_SwapLockAnnounce counts_SwapLockAcquire counts_SwapUnlock counts_SwapExit
      counts_ReaderCall counts_ReaderLoad counts_ReaderTryRLock counts_ReaderRecheck counts_ReaderRUnlock
      counts_HandleGet counts_HandleDone)+

subsection \<open>The handles\<close>

lemma holders_zero_handle:
  assumes "holders p hs rs = 0" and "h < length hs"
  shows "\<not> handle_holds p (hs ! h)"
proof
  assume "handle_holds p (hs ! h)"
  with assms(2) have "hs ! h \<in> set (filter (handle_holds p) hs)" by simp
  then have "0 < length (filter (handle_holds p) hs)" by (rule length_pos_if_in_set)
  with assms(1) show False by (simp add: holders_def)
qed

lemma handles_init: "handles_ok (init n r0 w0)"
  by (simp add: handles_ok_def init_def)

lemma handles_enter:
  "handles_ok s \<Longrightarrow> shape_ok s \<Longrightarrow> guard_TryLock (shared s) = Some w1 \<Longrightarrow> pc \<in> {InGet, InSet x, InSwap} \<Longrightarrow>
   handles_ok (s\<lparr>shared := w1, wpc := pc\<rparr>)"
  by (auto simp: handles_ok_def shape_ok_def guard_TryLock_def draining_def split: if_splits)

lemma handles_GetEnter: "handles_ok s \<Longrightarrow> shape_ok s \<Longrightarrow> step GetEnter s = Some (ob, s1) \<Longrightarrow> handles_ok s1"
  by (auto split: option.splits intro: handles_enter)

lemma handles_SetEnter: "handles_ok s \<Longrightarrow> shape_ok s \<Longrightarrow> step (SetEnter x) s = Some (ob, s1) \<Longrightarrow> handles_ok s1"
  by (auto split: option.splits intro: handles_enter)

lemma handles_SwapEnter: "handles_ok s \<Longrightarrow> shape_ok s \<Longrightarrow> step SwapEnter s = Some (ob, s1) \<Longrightarrow> handles_ok s1"
  by (auto split: option.splits intro: handles_enter)

lemma handles_GetExit: "handles_ok s \<Longrightarrow> step GetExit s = Some (ob, s1) \<Longrightarrow> handles_ok s1"
  by (auto simp: handles_ok_def draining_def guard_Unlock_def split: wpc.splits)

lemma handles_SetExit: "handles_ok s \<Longrightarrow> step SetExit s = Some (ob, s1) \<Longrightarrow> handles_ok s1"
  by (auto simp: handles_ok_def draining_def guard_Unlock_def split: wpc.splits)

lemma handles_SwapPublish:
  "handles_ok s \<Longrightarrow> shape_ok s \<Longrightarrow> step SwapPublish s = Some (ob, s1) \<Longrightarrow> handles_ok s1"
  by (auto simp: handles_ok_def shape_ok_def draining_def publish_def nth_append split: wpc.splits)

lemma handles_SwapLockAnnounce:
  "handles_ok s \<Longrightarrow> step SwapLockAnnounce s = Some (ob, s1) \<Longrightarrow> handles_ok s1"
  by (auto simp: handles_ok_def draining_def split: wpc.splits option.splits)

lemma handles_SwapLockAcquire:
  assumes ho: "handles_ok s" and sh: "shape_ok s" and c: "counts_ok s"
    and st: "step SwapLockAcquire s = Some (ob, s1)"
  shows "handles_ok s1"
proof -
  from st obtain q m where pc: "wpc s = SwapWaiting q"
    and m: "LockAcquire (mutex_at q (shared s)) = Some m"
    and s1: "s1 = s\<lparr>shared := set_mutex q m (shared s), wpc := SwapHolding q\<rparr>"
    by (auto split: wpc.splits option.splits)
  from sh pc have q: "q < length (heap (shared s))"
    by (simp add: shape_ok_def retiring_def)
  from m have "readerCount (mutex_at q (shared s)) = 0"
    by (simp add: LockAcquire_def split: if_splits)
  with c q have z: "holders q (handles s) (rpcs s) = 0"
    by (simp add: counts_ok_def)
  have "\<not> reader_done (handles s ! h) \<Longrightarrow> reader_mu (handles s ! h) = current (shared s)"
    if h: "h < length (handles s)" for h
    using holders_zero_handle [OF z h] ho h by (auto simp: handles_ok_def handle_holds_def pc draining_def)
  with ho show ?thesis
    by (simp add: handles_ok_def s1)
qed

lemma handles_SwapUnlock:
  "handles_ok s \<Longrightarrow> step SwapUnlock s = Some (ob, s1) \<Longrightarrow> handles_ok s1"
  by (auto simp: handles_ok_def draining_def split: wpc.splits option.splits)

lemma handles_SwapExit:
  "handles_ok s \<Longrightarrow> step SwapExit s = Some (ob, s1) \<Longrightarrow> handles_ok s1"
  by (auto simp: handles_ok_def draining_def guard_Unlock_def absorb_def split: wpc.splits option.splits)

lemma handles_ReaderCall: "handles_ok s \<Longrightarrow> step (ReaderCall t) s = Some (ob, s1) \<Longrightarrow> handles_ok s1"
  by (auto simp: handles_ok_def split: if_splits)

lemma handles_ReaderLoad: "handles_ok s \<Longrightarrow> step (ReaderLoad t) s = Some (ob, s1) \<Longrightarrow> handles_ok s1"
  by (auto simp: handles_ok_def split: if_splits)

lemma handles_ReaderTryRLock:
  "handles_ok s \<Longrightarrow> step (ReaderTryRLock t) s = Some (ob, s1) \<Longrightarrow> handles_ok s1"
  by (auto simp: handles_ok_def split: if_splits rpc.splits prod.splits)

lemma handles_ReaderRecheck:
  "handles_ok s \<Longrightarrow> step (ReaderRecheck t) s = Some (ob, s1) \<Longrightarrow> handles_ok s1"
  by (auto simp: handles_ok_def nth_append split: if_splits rpc.splits)

lemma handles_ReaderRUnlock:
  "handles_ok s \<Longrightarrow> step (ReaderRUnlock t) s = Some (ob, s1) \<Longrightarrow> handles_ok s1"
  by (auto simp: handles_ok_def split: if_splits rpc.splits option.splits)

lemma handles_HandleGet: "handles_ok s \<Longrightarrow> step (HandleGet h) s = Some (ob, s1) \<Longrightarrow> handles_ok s1"
  by (auto simp: Reader_Get_def split: if_splits)

lemma handles_HandleDone:
  "handles_ok s \<Longrightarrow> step (HandleDone h) s = Some (ob, s1) \<Longrightarrow> handles_ok s1"
  by (auto simp: handles_ok_def Reader_Done_def Let_def nth_list_update split: if_splits option.splits)

lemma handles_step:
  "handles_ok s \<Longrightarrow> shape_ok s \<Longrightarrow> counts_ok s \<Longrightarrow> step a s = Some (ob, s1) \<Longrightarrow> handles_ok s1"
  by (cases a) (blast intro: handles_GetEnter handles_GetExit handles_SetEnter handles_SetExit handles_SwapEnter
      handles_SwapPublish handles_SwapLockAnnounce handles_SwapLockAcquire handles_SwapUnlock handles_SwapExit
      handles_ReaderCall handles_ReaderLoad handles_ReaderTryRLock handles_ReaderRecheck handles_ReaderRUnlock
      handles_HandleGet handles_HandleDone)+

lemma inv_init: "inv (init n r0 w0)"
  by (simp add: inv_def shape_init wlocks_init counts_init handles_init)

lemma inv_step: "inv s \<Longrightarrow> step a s = Some (ob, s1) \<Longrightarrow> inv s1"
  unfolding inv_def by (blast intro: shape_step wlocks_step counts_step handles_step)

lemma reachable_inv: "reachable s \<Longrightarrow> inv s"
  by (induction rule: reachable.induct) (auto intro: inv_init inv_step)

section \<open>The methods run alone\<close>

lemma Writer_Get_free: "\<not> unsyncWriterCheck w \<Longrightarrow> Writer_Get w = (Inr (writerValue w), w)"
  by (simp add: Writer_Get_def stmtdefs)

lemma Writer_Get_held: "unsyncWriterCheck w \<Longrightarrow> Writer_Get w = (Inl messageMultipleWritersDetected, w)"
  by (simp add: Writer_Get_def stmtdefs)

lemma Writer_Set_free:
  "\<not> unsyncWriterCheck w \<Longrightarrow> Writer_Set x w = (Inr (writerValue w), w\<lparr>writerValue := x\<rparr>)"
  by (simp add: Writer_Set_def stmtdefs)

lemma Writer_Set_held: "unsyncWriterCheck w \<Longrightarrow> Writer_Set x w = (Inl messageMultipleWritersDetected, w)"
  by (simp add: Writer_Set_def stmtdefs)

lemma Writer_Swap_held:
  "unsyncWriterCheck w \<Longrightarrow> Writer_Swap w = Some (Inl messageMultipleWritersDetected, w)"
  by (simp add: Writer_Swap_def stmtdefs)



lemma Writer_Reader_free:
  "wlock (mutex_at (current w) w) = NoWriter \<Longrightarrow>
   Writer_Reader w =
     Some (Inr \<lparr>reader_mu = current w, reader_done = False, reader_v = published w\<rparr>,
           set_mutex (current w)
             ((mutex_at (current w) w)\<lparr>readerCount := Suc (readerCount (mutex_at (current w) w))\<rparr>) w)"
  by (subst Writer_Reader.simps) (simp add: TryRLock_def published_def)

lemma Writer_Reader_locked:
  "wlock (mutex_at (current w) w) \<noteq> NoWriter \<Longrightarrow> Writer_Reader w = None"
proof (rule ccontr)
  assume a: "wlock (mutex_at (current w) w) \<noteq> NoWriter" and "Writer_Reader w \<noteq> None"
  then obtain y where "Writer_Reader w = Some y" by blast
  then have "wlock (mutex_at (current w) w) = NoWriter"
    by (rule Writer_Reader.raw_induct [where P = "\<lambda>u y. wlock (mutex_at (current u) u) = NoWriter", rotated])
       (auto simp: TryRLock_def split: if_splits option.splits)
  with a show False by simp
qed



lemma Writer_Swap_returns:
  assumes "Writer_Swap w = Some (Inr u, w2)" and "current w < length (heap w)"
  shows "\<not> unsyncWriterCheck w \<and> published w2 = writerValue w \<and> writerValue w2 = published w \<and>
         current w2 = length (heap w) \<and> length (heap w2) = Suc (length (heap w)) \<and>
         \<not> unsyncWriterCheck w2 \<and> mutex_at (current w2) w2 = RWMutex_zero"
proof -
  from assms(1) have g: "\<not> unsyncWriterCheck w"
    by (auto simp: Writer_Swap_def guard_TryLock_def split: if_splits)
  define w1 where "w1 = w\<lparr>unsyncWriterCheck := True\<rparr>"
  define w2' where "w2' = snd (publish w1)"
  define old where "old = current w"
  have p: "publish w1 = (old, w2')" by (simp add: publish_def w2'_def w1_def old_def)
  from assms(1) g p obtain m where
    w2: "w2 = guard_Unlock (absorb old (set_mutex old (Unlock (mutex_at old (set_mutex old m w2'))) (set_mutex old m w2')))"
    by (auto simp: Writer_Swap_def guard_TryLock_def w1_def Let_def split: option.splits)
  have h2: "heap w2' = heap w @ [\<lparr>rwmutex = RWMutex_zero, cur_v = writerValue w\<rparr>]"
    and c2: "current w2' = length (heap w)"
    by (simp_all add: w2'_def publish_def w1_def)
  have old: "old < length (heap w)" using assms(2) by (simp add: old_def)
  have "published w2 = writerValue w"
    by (simp add: w2 published_def guard_Unlock_def absorb_def c2 h2)
  moreover have "writerValue w2 = published w"
    using old by (simp add: w2 published_def guard_Unlock_def absorb_def h2 nth_append old_def)
  moreover have "current w2 = length (heap w)"
    by (simp add: w2 guard_Unlock_def absorb_def c2)
  moreover have "length (heap w2) = Suc (length (heap w))"
    by (simp add: w2 guard_Unlock_def absorb_def h2)
  moreover have "\<not> unsyncWriterCheck w2"
    by (simp add: w2 guard_Unlock_def)
  moreover have "mutex_at (current w2) w2 = RWMutex_zero"
    using old by (simp add: w2 guard_Unlock_def absorb_def c2 mutex_at_def set_mutex_def h2 nth_append)
  ultimately show ?thesis using g by simp
qed


lemma Reader_sees_published:
  assumes "mutex_at (current w) w = RWMutex_zero"
  shows "Writer_Reader w =
     Some (Inr \<lparr>reader_mu = current w, reader_done = False, reader_v = published w\<rparr>,
           set_mutex (current w) \<lparr>readerCount = 1, wlock = NoWriter\<rparr> w)"
proof -
  from assms have "wlock (mutex_at (current w) w) = NoWriter" by (simp add: RWMutex_zero_def)
  from Writer_Reader_free [OF this] assms show ?thesis by (simp add: RWMutex_zero_def)
qed

lemma quiescent_writerValue [simp]: "quiescent (w\<lparr>writerValue := x\<rparr>) = quiescent w"
  by (simp add: quiescent_def mutex_at_def)






section \<open>Steps and handles\<close>

lemma step_handles_other:
  assumes "step a s = Some (ob, s1)"
    and "\<forall>t. a \<noteq> ReaderRecheck t" and "\<forall>h. a \<noteq> HandleGet h" and "\<forall>h. a \<noteq> HandleDone h"
  shows "handles s1 = handles s"
  using assms
  by (cases a) (auto split: option.splits wpc.splits if_splits rpc.splits prod.splits)

lemma step_HandleGet_same:
  assumes "step (HandleGet h) s = Some (ob, s1)"
  shows "s1 = s"
  using assms by (auto simp: Reader_Get_def split: if_splits)

lemma step_HandleGet_active:
  "h < length (handles s) \<Longrightarrow> \<not> reader_done (handles s ! h) \<Longrightarrow>
   step (HandleGet h) s = Some (HandleGetReturns (reader_v (handles s ! h)), s)"
  by (simp add: Reader_Get_def)

lemma step_HandleGet_released:
  "h < length (handles s) \<Longrightarrow> reader_done (handles s ! h) \<Longrightarrow>
   step (HandleGet h) s = Some (Panics messageUsageOldReaderDetected, s)"
  by (simp add: Reader_Get_def)

lemma step_HandleDone_released:
  "h < length (handles s) \<Longrightarrow> reader_done (handles s ! h) \<Longrightarrow>
   step (HandleDone h) s = Some (Panics messageUsageOldReaderDetected, s)"
  by (simp add: Reader_Done_def)

lemma active_handle_count:
  assumes "inv s" and "h < length (handles s)" and "\<not> reader_done (handles s ! h)"
  shows "readerCount (mutex_at (reader_mu (handles s ! h)) (shared s)) \<noteq> 0"
proof -
  let ?r = "handles s ! h"
  let ?q = "reader_mu ?r"
  from assms(1) have sh: "shape_ok s" and c: "counts_ok s" by (simp_all add: inv_def)
  from shape_handle_ptr [OF sh assms(2)] c
  have rc: "readerCount (mutex_at ?q (shared s)) = holders ?q (handles s) (rpcs s)"
    by (simp add: counts_ok_def)
  have "handle_holds ?q ?r" using assms(3) by (simp add: handle_holds_def)
  with holders_zero_handle [of ?q "handles s" "rpcs s" h] assms(2) rc show ?thesis by auto
qed

lemma step_HandleDone_active:
  assumes "inv s" and "h < length (handles s)" and "\<not> reader_done (handles s ! h)"
  shows "step (HandleDone h) s =
     Some (DoneReturns,
       s\<lparr>shared := set_mutex (reader_mu (handles s ! h))
            ((mutex_at (reader_mu (handles s ! h)) (shared s))
               \<lparr>readerCount := readerCount (mutex_at (reader_mu (handles s ! h)) (shared s)) - 1\<rparr>)
            (shared s),
         handles := (handles s)[h := (handles s ! h)\<lparr>reader_done := True\<rparr>]\<rparr>)"
  using active_handle_count [OF assms] assms(2,3)
  by (simp add: Reader_Done_def RUnlock_def Let_def)

lemma step_Recheck_handles:
  assumes "step (ReaderRecheck t) s = Some (ob, s1)"
  shows "(handles s1 = handles s \<and> ob = Silent) \<or>
         (handles s1 = handles s @ [\<lparr>reader_mu = current (shared s), reader_done = False,
                                     reader_v = published (shared s)\<rparr>] \<and>
          ob = ReaderReturns t (length (handles s)))"
  using assms by (auto simp: published_def split: if_splits rpc.splits)

text \<open>What one step does to a handle that exists.\<close>

lemma step_handle:
  assumes i: "inv s" and st: "step a s = Some (ob, s1)" and h: "h < length (handles s)"
  shows "h < length (handles s1) \<and>
         reader_mu (handles s1 ! h) = reader_mu (handles s ! h) \<and>
         reader_v (handles s1 ! h) = reader_v (handles s ! h) \<and>
         (reader_done (handles s1 ! h) \<longleftrightarrow>
            reader_done (handles s ! h) \<or> (a = HandleDone h \<and> ob = DoneReturns))"
proof -
  consider (recheck) t where "a = ReaderRecheck t" | (get) k where "a = HandleGet k"
    | (release) k where "a = HandleDone k"
    | (other) "\<forall>t. a \<noteq> ReaderRecheck t" "\<forall>h. a \<noteq> HandleGet h" "\<forall>h. a \<noteq> HandleDone h"
    by blast
  then show ?thesis
  proof cases
    case recheck
    with step_Recheck_handles [of t s ob s1] st h show ?thesis
      by (auto simp: nth_append)
  next
    case get
    with step_HandleGet_same [of k s ob s1] st h show ?thesis
      by (auto simp: Reader_Get_def split: if_splits)
  next
    case release
    from release st have k: "k < length (handles s)" by (auto split: if_splits)
    from st have st': "step (HandleDone k) s = Some (ob, s1)" by (simp only: release)
    show ?thesis
    proof (cases "reader_done (handles s ! k)")
      case True
      from st' have "ob = Panics messageUsageOldReaderDetected \<and> s1 = s"
        by (simp only: step_HandleDone_released [OF k True]) auto
      with True release h show ?thesis by auto
    next
      case False
      from st' have "ob = DoneReturns \<and>
          handles s1 = (handles s)[k := (handles s ! k)\<lparr>reader_done := True\<rparr>]"
        by (simp only: step_HandleDone_active [OF i k False]) auto
      with False release h k show ?thesis
        by (cases "h = k") (simp_all add: nth_list_update)
    qed
  next
    case other
    with step_handles_other [OF st] h show ?thesis by auto
  qed
qed

lemma step_new_handle:
  assumes "step a s = Some (ob, s1)" and "length (handles s) \<le> h" and "h < length (handles s1)"
  shows "\<not> reader_done (handles s1 ! h)"
proof -
  consider (recheck) t where "a = ReaderRecheck t" | (get) k where "a = HandleGet k"
    | (release) k where "a = HandleDone k"
    | (other) "\<forall>t. a \<noteq> ReaderRecheck t" "\<forall>h. a \<noteq> HandleGet h" "\<forall>h. a \<noteq> HandleDone h"
    by blast
  then show ?thesis
  proof cases
    case recheck
    with step_Recheck_handles [of t s ob s1] assms show ?thesis
      by (auto simp: nth_append)
  next
    case get
    with step_HandleGet_same [of k s ob s1] assms show ?thesis by auto
  next
    case release
    with assms show ?thesis
      by (auto split: if_splits prod.splits sum.splits)
  next
    case other
    with step_handles_other [OF assms(1)] assms show ?thesis by auto
  qed
qed

lemma step_handles_length:
  assumes "step a s = Some (ob, s1)"
  shows "length (handles s) \<le> length (handles s1)"
proof -
  consider (recheck) t where "a = ReaderRecheck t" | (get) k where "a = HandleGet k"
    | (release) k where "a = HandleDone k"
    | (other) "\<forall>t. a \<noteq> ReaderRecheck t" "\<forall>h. a \<noteq> HandleGet h" "\<forall>h. a \<noteq> HandleDone h"
    by blast
  then show ?thesis
  proof cases
    case recheck
    with step_Recheck_handles [of t s ob s1] assms show ?thesis by auto
  next
    case get
    with step_HandleGet_same [of k s ob s1] assms show ?thesis by auto
  next
    case release
    with assms show ?thesis
      by (auto split: if_splits prod.splits sum.splits)
  next
    case other
    with step_handles_other [OF assms(1)] show ?thesis by auto
  qed
qed

lemma step_HandleDone_enabled: "step (HandleDone h) s = Some (ob, s1) \<Longrightarrow> h < length (handles s)"
  by (auto split: if_splits)

subsection \<open>Runs\<close>

lemma run_Cons_Some:
  "run (a # as) s = Some (obs, s2) \<longleftrightarrow>
   (\<exists>ob s1 obs1. step a s = Some (ob, s1) \<and> run as s1 = Some (obs1, s2) \<and> obs = ob # obs1)"
  by (auto split: option.splits)

lemma run_length: "run as s = Some (obs, s1) \<Longrightarrow> length obs = length as"
  by (induction as arbitrary: s obs) (auto simp: run_Cons_Some simp del: run.simps(2))

lemma run_inv: "inv s \<Longrightarrow> run as s = Some (obs, s1) \<Longrightarrow> inv s1"
  by (induction as arbitrary: s obs) (auto simp: run_Cons_Some simp del: run.simps(2) dest: inv_step)

lemma run_reachable: "reachable s \<Longrightarrow> run as s = Some (obs, s1) \<Longrightarrow> reachable s1"
  by (induction as arbitrary: s obs)
     (auto simp: run_Cons_Some simp del: run.simps(2) dest: reachable_step)

text \<open>
  A handle is released exactly when a \<^verbatim>\<open>Done\<close> on it has returned: along a run, for
  a handle that exists at the end.
\<close>

lemma run_handle_done:
  assumes "inv s" and "run as s = Some (obs, s1)" and "h < length (handles s1)"
  shows "reader_done (handles s1 ! h) \<longleftrightarrow>
         (h < length (handles s) \<and> reader_done (handles s ! h)) \<or>
         (\<exists>i < length as. as ! i = HandleDone h \<and> obs ! i = DoneReturns)"
  using assms
proof (induction as arbitrary: s obs)
  case Nil
  then show ?case by simp
next
  case (Cons a as)
  from Cons.prems(2) obtain ob s' obs' where st: "step a s = Some (ob, s')"
    and r: "run as s' = Some (obs', s1)" and obs: "obs = ob # obs'"
    by (auto simp: run_Cons_Some simp del: run.simps(2))
  from inv_step [OF Cons.prems(1) st] have i': "inv s'" .
  from Cons.IH [OF i' r Cons.prems(3)]
  have ih: "reader_done (handles s1 ! h) \<longleftrightarrow>
         (h < length (handles s') \<and> reader_done (handles s' ! h)) \<or>
         (\<exists>i < length as. as ! i = HandleDone h \<and> obs' ! i = DoneReturns)" .
  have first: "(h < length (handles s') \<and> reader_done (handles s' ! h)) \<longleftrightarrow>
        (h < length (handles s) \<and> reader_done (handles s ! h)) \<or> (a = HandleDone h \<and> ob = DoneReturns)"
  proof (cases "h < length (handles s)")
    case True
    from step_handle [OF Cons.prems(1) st True] True show ?thesis by auto
  next
    case False
    then have le: "length (handles s) \<le> h" by simp
    have "\<not> (a = HandleDone h \<and> ob = DoneReturns)"
      using step_HandleDone_enabled [of h s ob s'] st False by auto
    moreover have "\<not> (h < length (handles s') \<and> reader_done (handles s' ! h))"
      using step_new_handle [OF st le] by auto
    ultimately show ?thesis using False by auto
  qed
  have shift: "(\<exists>i < length (a # as). (a # as) ! i = HandleDone h \<and> obs ! i = DoneReturns) \<longleftrightarrow>
        (a = HandleDone h \<and> ob = DoneReturns) \<or>
        (\<exists>i < length as. as ! i = HandleDone h \<and> obs' ! i = DoneReturns)"
    unfolding obs by (auto simp: less_Suc_eq_0_disj)
  show ?case
    unfolding ih first shift by blast
qed

subsection \<open>States of the worked executions\<close>

lemma run_init_reachable: "run as (init n r0 w0) = Some (obs, s) \<Longrightarrow> reachable s"
  by (rule run_reachable [OF reachable_init])

lemmas evaldefs = init_def New_def guard_TryLock_def guard_Unlock_def publish_def absorb_def
  mutex_at_def set_mutex_def TryRLock_def RUnlock_def LockAnnounce_def LockAcquire_def Lock_def
  Unlock_def RWMutex_zero_def Reader_Get_def Reader_Done_def

lemma one_handle_run:
  "run [ReaderCall 0, ReaderLoad 0, ReaderTryRLock 0, ReaderRecheck 0] (init 1 7 8) =
   Some ([Silent, Silent, Silent, ReaderReturns 0 0], one_handle)"
  by (simp add: evaldefs one_handle_def)

lemma one_handle_reachable: "reachable one_handle"
  by (rule run_init_reachable [OF one_handle_run])

lemma released_handle_run:
  "run [ReaderCall 0, ReaderLoad 0, ReaderTryRLock 0, ReaderRecheck 0, HandleDone 0] (init 1 7 8) =
   Some ([Silent, Silent, Silent, ReaderReturns 0 0, DoneReturns], released_handle)"
  by (simp add: evaldefs released_handle_def)

lemma inside_Set_run: "run [SetEnter 9] (init 1 7 8) = Some ([Silent], inside_Set)"
  by (simp add: evaldefs inside_Set_def)

subsection \<open>Swap and the handles it waits for\<close>

lemma step_heap_mono:
  assumes "step a s = Some (ob, s1)"
  shows "length (heap (shared s)) \<le> length (heap (shared s1))"
  using assms
  by (cases a)
     (auto simp: guard_TryLock_def guard_Unlock_def publish_def absorb_def Reader_Get_def
        Reader_Done_def Let_def
        split: option.splits wpc.splits if_splits rpc.splits prod.splits)

lemma run_heap_mono:
  "run as s = Some (obs, s1) \<Longrightarrow> length (heap (shared s)) \<le> length (heap (shared s1))"
proof (induction as arbitrary: s obs)
  case Nil
  then show ?case by simp
next
  case (Cons a as)
  from Cons.prems obtain ob s' obs' where st: "step a s = Some (ob, s')"
    and r: "run as s' = Some (obs', s1)"
    by (auto simp: run_Cons_Some simp del: run.simps(2))
  from step_heap_mono [OF st] Cons.IH [OF r] show ?case by simp
qed

lemma run_handle:
  assumes "inv s" and "run as s = Some (obs, s1)" and "h < length (handles s)"
  shows "h < length (handles s1) \<and> reader_mu (handles s1 ! h) = reader_mu (handles s ! h) \<and>
         reader_v (handles s1 ! h) = reader_v (handles s ! h)"
  using assms
proof (induction as arbitrary: s obs)
  case Nil
  then show ?case by simp
next
  case (Cons a as)
  from Cons.prems(2) obtain ob s' obs' where st: "step a s = Some (ob, s')"
    and r: "run as s' = Some (obs', s1)"
    by (auto simp: run_Cons_Some simp del: run.simps(2))
  from step_handle [OF Cons.prems(1) st Cons.prems(3)]
  have h': "h < length (handles s')" and m: "reader_mu (handles s' ! h) = reader_mu (handles s ! h)"
    and v: "reader_v (handles s' ! h) = reader_v (handles s ! h)"
    by blast+
  from Cons.IH [OF inv_step [OF Cons.prems(1) st] r h'] m v show ?case by simp
qed

lemma active_handles_after_drain:
  assumes "inv s" and "draining (wpc s) = None" and "h < length (handles s)"
    and "\<not> reader_done (handles s ! h)"
  shows "reader_mu (handles s ! h) = current (shared s)"
  using assms by (auto simp: inv_def handles_ok_def)

lemma Swap_blocked_by_handle:
  assumes i: "inv s" and h: "h < length (handles s)" and a: "\<not> reader_done (handles s ! h)"
    and w: "wpc s = SwapWaiting (reader_mu (handles s ! h))"
  shows "step SwapLockAcquire s = None"
  using active_handle_count [OF i h a] w by (simp add: LockAcquire_def)

lemma swap_entered_run: "run [SwapEnter] one_handle = Some ([Silent], swap_entered)"
  by (simp add: evaldefs one_handle_def swap_entered_def)

lemma swap_published_step: "step SwapPublish swap_entered = Some (Silent, swap_published)"
  by (simp add: evaldefs swap_entered_def swap_published_def)

lemma swap_waiting_run: "run [SwapLockAnnounce] swap_published = Some ([Silent], swap_waiting)"
  by (simp add: evaldefs swap_published_def swap_waiting_def)

lemma swap_unlocked_run:
  "run [SwapLockAnnounce, HandleDone 0, SwapLockAcquire, SwapUnlock] swap_published =
   Some ([Silent, DoneReturns, Silent, Silent], swap_unlocked)"
  by (simp add: evaldefs swap_published_def swap_unlocked_def)

lemma swap_entered_reachable: "reachable swap_entered"
  by (rule run_reachable [OF one_handle_reachable swap_entered_run])

lemma swap_waiting_reachable: "reachable swap_waiting"
  by (rule run_reachable [OF reachable_step [OF swap_entered_reachable swap_published_step]
        swap_waiting_run])

subsection \<open>The two roles of a value\<close>

lemma published_set_mutex [simp]: "published (set_mutex p m w) = published w"
  by (simp add: published_def)

lemma published_guard [simp]: "published (w\<lparr>unsyncWriterCheck := b\<rparr>) = published w"
  by (simp add: published_def)

lemma published_writerValue [simp]: "published (w\<lparr>writerValue := x\<rparr>) = published w"
  by (simp add: published_def)

lemma published_guard_Unlock [simp]: "published (guard_Unlock w) = published w"
  by (simp add: guard_Unlock_def)

lemma published_absorb [simp]: "published (absorb p w) = published w"
  by (simp add: absorb_def)

lemma writerValue_guard_Unlock [simp]: "writerValue (guard_Unlock w) = writerValue w"
  by (simp add: guard_Unlock_def)

lemma step_published:
  assumes "step a s = Some (ob, s1)" and "a \<noteq> SwapPublish"
  shows "published (shared s1) = published (shared s)"
  using assms
  by (cases a)
     (auto simp: guard_TryLock_def Reader_Get_def Reader_Done_def Let_def
        split: option.splits wpc.splits if_splits rpc.splits prod.splits)

lemma step_writerValue:
  assumes "step a s = Some (ob, s1)" and "a \<noteq> SetExit" and "a \<noteq> SwapExit"
  shows "writerValue (shared s1) = writerValue (shared s)"
  using assms
  by (cases a)
     (auto simp: guard_TryLock_def publish_def Reader_Get_def Reader_Done_def Let_def
        split: option.splits wpc.splits if_splits rpc.splits prod.splits)

lemma step_cur_v:
  assumes "step a s = Some (ob, s1)" and "p < length (heap (shared s))"
  shows "cur_v (heap (shared s1) ! p) = cur_v (heap (shared s) ! p)"
  using assms
  by (cases a)
     (auto simp: guard_TryLock_def guard_Unlock_def publish_def absorb_def nth_append
        Reader_Get_def Reader_Done_def Let_def
        split: option.splits wpc.splits if_splits rpc.splits prod.splits)

lemma step_wpc_readers:
  assumes "step a s = Some (ob, s1)"
    and "a \<in> range ReaderCall \<union> range ReaderLoad \<union> range ReaderTryRLock \<union> range ReaderRecheck \<union>
             range ReaderRUnlock \<union> range HandleGet \<union> range HandleDone"
  shows "wpc s1 = wpc s"
  using assms
  by (auto simp: Reader_Get_def Reader_Done_def Let_def
        split: option.splits if_splits rpc.splits prod.splits)

lemma roles_init: "r0 \<noteq> w0 \<Longrightarrow> roles_ok (init n r0 w0)"
  by (simp add: roles_ok_def init_def New_def published_def retiring_def)

lemma roles_readers:
  assumes ro: "roles_ok s" and st: "step a s = Some (ob, s1)"
    and a: "a \<in> range ReaderCall \<union> range ReaderLoad \<union> range ReaderTryRLock \<union> range ReaderRecheck \<union>
             range ReaderRUnlock \<union> range HandleGet \<union> range HandleDone"
    and sh: "shape_ok s"
  shows "roles_ok s1"
proof -
  from a have np: "a \<noteq> SwapPublish" and ns: "a \<noteq> SetExit" and nx: "a \<noteq> SwapExit" by auto
  note p = step_published [OF st np] and v = step_writerValue [OF st ns nx]
    and w = step_wpc_readers [OF st a]
  have c: "cur_v (heap (shared s1) ! q) = cur_v (heap (shared s) ! q)" if "retiring (wpc s) = Some q" for q
  proof -
    from sh that have "q < length (heap (shared s))" by (auto simp: shape_ok_def)
    from step_cur_v [OF st this] show ?thesis .
  qed
  from ro show ?thesis
    unfolding roles_ok_def w p v
    by (cases "retiring (wpc s)") (simp_all add: c)
qed

lemma roles_enter:
  assumes "roles_ok s" and "shape_ok s" and "guard_TryLock (shared s) = Some w1"
    and "pc = InGet \<or> pc = InSwap"
  shows "roles_ok (s\<lparr>shared := w1, wpc := pc\<rparr>)"
  using assms
  by (auto simp: roles_ok_def shape_ok_def retiring_def guard_TryLock_def split: if_splits)

lemma roles_GetEnter: "roles_ok s \<Longrightarrow> shape_ok s \<Longrightarrow> step GetEnter s = Some (ob, s1) \<Longrightarrow> roles_ok s1"
  by (auto split: option.splits intro: roles_enter)

lemma roles_SwapEnter: "roles_ok s \<Longrightarrow> shape_ok s \<Longrightarrow> step SwapEnter s = Some (ob, s1) \<Longrightarrow> roles_ok s1"
  by (auto split: option.splits intro: roles_enter)

lemma roles_GetExit: "roles_ok s \<Longrightarrow> step GetExit s = Some (ob, s1) \<Longrightarrow> roles_ok s1"
  by (auto simp: roles_ok_def retiring_def split: wpc.splits)

lemma roles_SetExit: "roles_ok s \<Longrightarrow> step SetExit s = Some (ob, s1) \<Longrightarrow> roles_ok s1"
  by (auto simp: roles_ok_def retiring_def split: wpc.splits)

lemma roles_SwapPublish:
  "roles_ok s \<Longrightarrow> shape_ok s \<Longrightarrow> step SwapPublish s = Some (ob, s1) \<Longrightarrow> roles_ok s1"
  by (auto simp: roles_ok_def shape_ok_def retiring_def publish_def published_def nth_append
      split: wpc.splits)

lemma roles_SwapLockAnnounce:
  "roles_ok s \<Longrightarrow> step SwapLockAnnounce s = Some (ob, s1) \<Longrightarrow> roles_ok s1"
  by (auto simp: roles_ok_def retiring_def split: wpc.splits option.splits)

lemma roles_SwapLockAcquire:
  "roles_ok s \<Longrightarrow> step SwapLockAcquire s = Some (ob, s1) \<Longrightarrow> roles_ok s1"
  by (auto simp: roles_ok_def retiring_def split: wpc.splits option.splits)

lemma roles_SwapUnlock:
  "roles_ok s \<Longrightarrow> step SwapUnlock s = Some (ob, s1) \<Longrightarrow> roles_ok s1"
  by (auto simp: roles_ok_def retiring_def split: wpc.splits)

lemma roles_SwapExit:
  "roles_ok s \<Longrightarrow> step SwapExit s = Some (ob, s1) \<Longrightarrow> roles_ok s1"
  by (auto simp: roles_ok_def retiring_def absorb_def split: wpc.splits)

lemma roles_writer:
  assumes ro: "roles_ok s" and sh: "shape_ok s" and st: "step a s = Some (ob, s1)"
    and a: "a \<in> {GetEnter, GetExit, SetExit, SwapEnter, SwapPublish, SwapLockAnnounce,
                  SwapLockAcquire, SwapUnlock, SwapExit}"
  shows "roles_ok s1"
  using assms
  by (blast intro: roles_GetEnter roles_SwapEnter roles_GetExit roles_SetExit roles_SwapPublish
      roles_SwapLockAnnounce roles_SwapLockAcquire roles_SwapUnlock roles_SwapExit)

lemma roles_SetEnter:
  assumes ro: "roles_ok s" and sh: "shape_ok s" and st: "step (SetEnter x) s = Some (ob, s1)"
    and x: "x \<noteq> published (shared s)"
  shows "roles_ok s1"
  using assms
  by (auto simp: roles_ok_def shape_ok_def guard_TryLock_def retiring_def split: option.splits if_splits)

lemma roles_step:
  assumes ro: "roles_ok s" and sh: "shape_ok s" and st: "step a s = Some (ob, s1)"
    and x: "case a of SetEnter x \<Rightarrow> x \<noteq> published (shared s) | _ \<Rightarrow> True"
  shows "roles_ok s1"
proof (cases a)
  case (SetEnter x)
  with roles_SetEnter [OF ro sh] st x show ?thesis by simp
qed (use roles_writer [OF ro sh st] roles_readers [OF ro st _ sh] in blast)+

lemma roles_run:
  assumes "roles_ok s" and "inv s" and "run as s = Some (obs, s1)" and "Set_avoids_published as s"
  shows "roles_ok s1"
  using assms
proof (induction as arbitrary: s obs)
  case Nil
  then show ?case by simp
next
  case (Cons a as)
  from Cons.prems(3) obtain ob s' obs' where st: "step a s = Some (ob, s')"
    and r: "run as s' = Some (obs', s1)"
    by (auto simp: run_Cons_Some simp del: run.simps(2))
  from Cons.prems(4) st have x: "case a of SetEnter x \<Rightarrow> x \<noteq> published (shared s) | _ \<Rightarrow> True"
    and av: "Set_avoids_published as s'"
    by simp_all
  from Cons.prems(2) have sh: "shape_ok s" by (simp add: inv_def)
  from roles_step [OF Cons.prems(1) sh st x] have "roles_ok s'" .
  from Cons.IH [OF this inv_step [OF Cons.prems(2) st] r av] show ?case .
qed

lemma swapped_once_run:
  "run [SetEnter 9, SetExit, SwapEnter, SwapPublish, SwapLockAnnounce, SwapLockAcquire,
        SwapUnlock, SwapExit] (init 1 7 8) =
   Some ([Silent, SetReturns 8, Silent, Silent, Silent, Silent, Silent, SwapReturns], swapped_once)"
  by (simp add: evaldefs swapped_once_def)

lemma swapped_once_avoids:
  "Set_avoids_published [SetEnter 9, SetExit, SwapEnter, SwapPublish, SwapLockAnnounce,
     SwapLockAcquire, SwapUnlock, SwapExit] (init 1 (7::nat) 8)"
  by (simp add: evaldefs published_def)

subsection \<open>The lock of the retired record\<close>

lemma mutex_at_set_mutex_if:
  "mutex_at p (set_mutex q m w) = (if p = q \<and> q < length (heap w) then m else mutex_at p w)"
  by (cases "q < length (heap w)") (auto simp: mutex_at_def set_mutex_def list_update_beyond)

lemma holding_init: "holding_ok (init n r0 w0)"
  by (simp add: holding_ok_def init_def)

lemma step_wpc_writer_enter:
  assumes "step a s = Some (ob, s1)" and "a \<in> {GetEnter, SwapEnter} \<union> range SetEnter"
  shows "s1 = s \<or> (\<forall>p. wpc s1 \<noteq> SwapHolding p)"
  using assms by (auto simp: guard_TryLock_def split: if_splits)

lemma holding_writer:
  assumes "holding_ok s" and "step a s = Some (ob, s1)"
    and "a \<in> {GetEnter, GetExit, SetExit, SwapEnter, SwapPublish, SwapLockAnnounce,
                  SwapLockAcquire, SwapUnlock, SwapExit} \<union> range SetEnter"
  shows "holding_ok s1"
proof -
  consider (enter) "a \<in> {GetEnter, SwapEnter} \<union> range SetEnter" | (acq) "a = SwapLockAcquire"
    | (other) "a \<in> {GetExit, SetExit, SwapPublish, SwapLockAnnounce, SwapUnlock, SwapExit}"
    using assms(3) by blast
  then show ?thesis
  proof cases
    case enter
    from step_wpc_writer_enter [OF assms(2) enter] assms(1) show ?thesis
      by (auto simp: holding_ok_def)
  next
    case acq
    with assms(2) obtain q m where pc: "wpc s = SwapWaiting q"
      and m: "LockAcquire (mutex_at q (shared s)) = Some m"
      and s1: "s1 = s\<lparr>shared := set_mutex q m (shared s), wpc := SwapHolding q\<rparr>"
      by (auto split: wpc.splits option.splits)
    from m have z: "readerCount m = 0" "readerCount (mutex_at q (shared s)) = 0"
      by (auto simp: LockAcquire_def split: if_splits)
    show ?thesis
    proof (cases "q < length (heap (shared s))")
      case True
      with z show ?thesis by (simp add: holding_ok_def s1 mutex_at_set_mutex)
    next
      case False
      with z show ?thesis
        by (simp add: holding_ok_def s1 mutex_at_def set_mutex_def list_update_beyond)
    qed
  next
    case other
    with assms(2) have "\<forall>p. wpc s1 \<noteq> SwapHolding p"
      by (auto simp: publish_def split: wpc.splits option.splits)
    then show ?thesis by (simp add: holding_ok_def)
  qed
qed

lemma holding_readers:
  assumes ho: "holding_ok s" and sh: "shape_ok s" and wl: "wlocks_ok s"
    and st: "step a s = Some (ob, s1)"
    and a: "a \<in> range ReaderCall \<union> range ReaderLoad \<union> range ReaderTryRLock \<union> range ReaderRecheck \<union>
             range ReaderRUnlock \<union> range HandleGet \<union> range HandleDone"
  shows "holding_ok s1"
proof -
  note w = step_wpc_readers [OF st a]
  have "readerCount (mutex_at p (shared s1)) = 0" if pc: "wpc s = SwapHolding p" for p
  proof -
    from ho pc have z: "readerCount (mutex_at p (shared s)) = 0" by (simp add: holding_ok_def)
    from sh pc have p: "p < length (heap (shared s))" by (simp add: shape_ok_def retiring_def)
    from wl p pc have h: "wlock (mutex_at p (shared s)) = WriterHolds"
      by (simp add: wlocks_ok_def wlock_expected_def)
    have "mutex_at p (shared s1) = mutex_at p (shared s)"
      using st a z h p
      by (auto simp: TryRLock_def RUnlock_def Reader_Get_def Reader_Done_def Let_def
            mutex_at_set_mutex_if
          split: if_splits rpc.splits option.splits)
    with z show ?thesis by simp
  qed
  then show ?thesis by (simp add: holding_ok_def w)
qed

lemma holding_step:
  assumes "holding_ok s" and "inv s" and "step a s = Some (ob, s1)"
  shows "holding_ok s1"
proof -
  from assms(2) have sh: "shape_ok s" and wl: "wlocks_ok s" by (simp_all add: inv_def)
  show ?thesis
    by (cases a)
       (use holding_writer [OF assms(1) assms(3)] holding_readers [OF assms(1) sh wl assms(3)]
         in blast)+
qed

lemma reachable_holding: "reachable s \<Longrightarrow> holding_ok s"
proof (induction rule: reachable.induct)
  case (reachable_init n reader writer)
  show ?case by (rule holding_init)
next
  case (reachable_step s a ob s1)
  from holding_step [OF reachable_step.IH reachable_inv [OF reachable_step.hyps(1)]
      reachable_step.hyps(2)]
  show ?case .
qed

text \<open>A thread past its \<^verbatim>\<open>TryRLock\<close> holds the shared lock of the record it loaded.\<close>

lemma rpc_holds_count:
  assumes "inv s" and "t < length (rpcs s)" and "rpc_holds c (rpcs s ! t)"
  shows "c < length (heap (shared s)) \<and> 0 < readerCount (mutex_at c (shared s))"
proof -
  from assms(1) have sh: "shape_ok s" and co: "counts_ok s" by (simp_all add: inv_def)
  from assms(3) have "rpc_ptr (rpcs s ! t) = Some c"
    by (auto simp: rpc_holds_def rpc_ptr_def)
  from shape_rpc_ptr [OF sh assms(2) this] have c: "c < length (heap (shared s))" .
  from assms(2,3) have "rpcs s ! t \<in> set (filter (rpc_holds c) (rpcs s))" by simp
  then have "0 < length (filter (rpc_holds c) (rpcs s))" by (rule length_pos_if_in_set)
  then have "0 < holders c (handles s) (rpcs s)" by (simp add: holders_def)
  with co c show ?thesis by (simp add: counts_ok_def)
qed

lemma step_creates_handle:
  assumes "step a s = Some (ob, s1)" and "length (handles s) < length (handles s1)"
  shows "\<exists>u. a = ReaderRecheck u \<and> u < length (rpcs s) \<and>
              rpcs s ! u = RLocked (current (shared s)) \<and>
              ob = ReaderReturns u (length (handles s)) \<and>
              shared s1 = shared s \<and>
              handles s1 = handles s @ [\<lparr>reader_mu = current (shared s), reader_done = False,
                                          reader_v = published (shared s)\<rparr>]"
proof -
  consider (recheck) u where "a = ReaderRecheck u" | (get) k where "a = HandleGet k"
    | (release) k where "a = HandleDone k"
    | (other) "\<forall>t. a \<noteq> ReaderRecheck t" "\<forall>h. a \<noteq> HandleGet h" "\<forall>h. a \<noteq> HandleDone h"
    by blast
  then show ?thesis
  proof cases
    case recheck
    with assms show ?thesis
      by (auto simp: published_def split: if_splits rpc.splits)
  next
    case get
    with step_HandleGet_same [of k s ob s1] assms show ?thesis by auto
  next
    case release
    with assms show ?thesis by (auto split: if_splits prod.splits sum.splits)
  next
    case other
    with step_handles_other [OF assms(1)] assms(2) show ?thesis by auto
  qed
qed

lemma stale_locked_run:
  "run [ReaderCall 0, ReaderLoad 0, ReaderTryRLock 0, SwapEnter, SwapPublish] (init 1 7 8) =
   Some ([Silent, Silent, Silent, Silent, Silent], stale_locked)"
  by (simp add: evaldefs stale_locked_def)

subsection \<open>Retries of Reader\<close>

lemma step_current:
  assumes "step a s = Some (ob, s1)" and "a \<noteq> SwapPublish"
  shows "current (shared s1) = current (shared s)"
  using assms
  by (cases a)
     (auto simp: guard_TryLock_def guard_Unlock_def absorb_def Reader_Get_def Reader_Done_def Let_def
        split: option.splits wpc.splits if_splits rpc.splits prod.splits)

lemma step_rpcs_length:
  assumes "step a s = Some (ob, s1)"
  shows "length (rpcs s1) = length (rpcs s)"
  using assms
  by (cases a)
     (auto simp: Reader_Get_def Reader_Done_def Let_def
        split: option.splits wpc.splits if_splits rpc.splits prod.splits)

lemma step_rpcs_other:
  assumes "step a s = Some (ob, s1)"
    and "a \<notin> {ReaderCall t, ReaderLoad t, ReaderTryRLock t, ReaderRecheck t, ReaderRUnlock t}"
  shows "rpcs s1 ! t = rpcs s ! t \<and> ob \<noteq> ReaderRetries t"
  using assms
  by (cases a)
     (auto simp: Reader_Get_def Reader_Done_def Let_def
        split: option.splits wpc.splits if_splits rpc.splits prod.splits)

lemma live_lock_free:
  assumes "inv s"
  shows "wlock (mutex_at (current (shared s)) (shared s)) = NoWriter"
  using assms
  by (auto simp: inv_def shape_ok_def wlocks_ok_def wlock_expected_def retiring_def)

lemma step_behind_self:
  assumes i: "inv s" and t: "t < length (rpcs s)" and st: "step a s = Some (ob, s1)"
    and a: "a \<in> {ReaderCall t, ReaderLoad t, ReaderTryRLock t, ReaderRecheck t, ReaderRUnlock t}"
  shows "(if ob = ReaderRetries t then 1 else 0) + behind t s1 \<le> behind t s"
proof -
  note lf = live_lock_free [OF i]
  from a consider "a = ReaderCall t" | "a = ReaderLoad t" | "a = ReaderTryRLock t"
    | "a = ReaderRecheck t" | "a = ReaderRUnlock t" by blast
  then show ?thesis
  proof cases
    case 1
    with st t show ?thesis by (auto simp: behind_def up_to_date_def split: if_splits)
  next
    case 2
    with st t show ?thesis by (auto simp: behind_def up_to_date_def split: if_splits)
  next
    case 3
    with st t lf show ?thesis
      by (auto simp: behind_def up_to_date_def TryRLock_def split: if_splits rpc.splits)
  next
    case 4
    with st t show ?thesis
      by (auto simp: behind_def up_to_date_def split: if_splits rpc.splits)
  next
    case 5
    with st t show ?thesis
      by (auto simp: behind_def up_to_date_def split: if_splits rpc.splits option.splits)
  qed
qed

lemma step_behind:
  assumes i: "inv s" and t: "t < length (rpcs s)" and st: "step a s = Some (ob, s1)"
  shows "(if ob = ReaderRetries t then 1 else 0) + behind t s1 \<le>
         (if a = SwapPublish then 1 else 0) + behind t s"
proof (cases "a \<in> {ReaderCall t, ReaderLoad t, ReaderTryRLock t, ReaderRecheck t, ReaderRUnlock t}")
  case True
  from step_behind_self [OF i t st True] show ?thesis by simp
next
  case False
  from step_rpcs_other [OF st False]
  have r: "rpcs s1 ! t = rpcs s ! t" and o: "ob \<noteq> ReaderRetries t" by simp_all
  show ?thesis
  proof (cases "a = SwapPublish")
    case True
    with o show ?thesis by (simp add: behind_def)
  next
    case False
    from step_current [OF st False] r have "up_to_date t s1 = up_to_date t s"
      by (simp add: up_to_date_def split: rpc.splits)
    with o False show ?thesis by (simp add: behind_def)
  qed
qed

lemma run_behind:
  assumes "inv s" and "t < length (rpcs s)" and "run as s = Some (obs, s1)"
  shows "count_list obs (ReaderRetries t) + behind t s1 \<le> count_list as SwapPublish + behind t s"
  using assms
proof (induction as arbitrary: s obs)
  case Nil
  then show ?case by simp
next
  case (Cons a as)
  from Cons.prems(3) obtain ob s' obs' where st: "step a s = Some (ob, s')"
    and r: "run as s' = Some (obs', s1)" and obs: "obs = ob # obs'"
    by (auto simp: run_Cons_Some simp del: run.simps(2))
  from step_rpcs_length [OF st] Cons.prems(2) have t': "t < length (rpcs s')" by simp
  from Cons.IH [OF inv_step [OF Cons.prems(1) st] t' r]
  have ih: "count_list obs' (ReaderRetries t) + behind t s1 \<le> count_list as SwapPublish + behind t s'" .
  from step_behind [OF Cons.prems(1) Cons.prems(2) st]
  have sb: "(if ob = ReaderRetries t then 1 else 0) + behind t s' \<le>
         (if a = SwapPublish then 1 else 0) + behind t s" .
  from ih sb show ?case unfolding obs by (simp split: if_splits)
qed

lemma stale_init: "stale_ok (init n r0 w0)"
  by (simp add: stale_ok_def init_def)

lemma stale_step:
  assumes so: "stale_ok s" and i: "inv s" and st: "step a s = Some (ob, s1)"
  shows "stale_ok s1"
  unfolding stale_ok_def
proof (intro allI impI)
  fix t c
  assume t1: "t < length (rpcs s1)" and pc1: "rpcs s1 ! t = RStale c"
  from step_rpcs_length [OF st] t1 have t: "t < length (rpcs s)" by simp
  from i have sh: "shape_ok s" by (simp add: inv_def)
  show "c \<noteq> current (shared s1)"
  proof (cases "a \<in> {ReaderCall t, ReaderLoad t, ReaderTryRLock t, ReaderRecheck t, ReaderRUnlock t}")
    case True
    then consider "a = ReaderCall t" | "a = ReaderLoad t" | "a = ReaderTryRLock t"
      | "a = ReaderRecheck t" | "a = ReaderRUnlock t" by blast
    then show ?thesis
    proof cases
      case 1
      with st t pc1 show ?thesis by (auto split: if_splits)
    next
      case 2
      with st t pc1 show ?thesis by (auto split: if_splits)
    next
      case 3
      with st t pc1 show ?thesis by (auto split: if_splits rpc.splits prod.splits)
    next
      case 4
      with st t pc1 show ?thesis by (auto split: if_splits rpc.splits)
    next
      case 5
      with st t pc1 so show ?thesis
        by (auto simp: stale_ok_def split: if_splits rpc.splits option.splits)
    qed
  next
    case False
    from step_rpcs_other [OF st False] pc1 have pc: "rpcs s ! t = RStale c" by simp
    show ?thesis
    proof (cases "a = SwapPublish")
      case True
      from shape_rpc_ptr [OF sh t, of c] pc have "c < length (heap (shared s))"
        by (simp add: rpc_ptr_def)
      moreover from st True have "current (shared s1) = length (heap (shared s))"
        by (auto simp: publish_def split: wpc.splits)
      ultimately show ?thesis by simp
    next
      case False
      from step_current [OF st False] so t pc show ?thesis by (simp add: stale_ok_def)
    qed
  qed
qed

lemma run_stale: "stale_ok s \<Longrightarrow> inv s \<Longrightarrow> run as s = Some (obs, s1) \<Longrightarrow> stale_ok s1"
proof (induction as arbitrary: s obs)
  case Nil
  then show ?case by simp
next
  case (Cons a as)
  from Cons.prems(3) obtain ob s' obs' where st: "step a s = Some (ob, s')"
    and r: "run as s' = Some (obs', s1)"
    by (auto simp: run_Cons_Some simp del: run.simps(2))
  from Cons.IH [OF stale_step [OF Cons.prems(1,2) st] inv_step [OF Cons.prems(2) st] r]
  show ?case .
qed

lemma retry_means_behind:
  assumes i: "inv s" and so: "stale_ok s" and t: "t < length (rpcs s)"
    and st: "step a s = Some (ReaderRetries t, s1)"
  shows "\<exists>c. rpc_ptr (rpcs s ! t) = Some c \<and> c \<noteq> current (shared s)"
proof -
  from step_rpcs_other [OF st] have "a = ReaderTryRLock t \<or> a = ReaderRUnlock t"
    using st by (cases a) (auto split: if_splits rpc.splits prod.splits option.splits wpc.splits)
  then show ?thesis
  proof
    assume "a = ReaderTryRLock t"
    with st t live_lock_free [OF i] show ?thesis
      by (auto simp: TryRLock_def rpc_ptr_def split: if_splits rpc.splits)
  next
    assume "a = ReaderRUnlock t"
    with st t so show ?thesis
      by (auto simp: stale_ok_def rpc_ptr_def split: if_splits rpc.splits option.splits)
  qed
qed

lemma Reader_never_waits:
  "t < length (rpcs s) \<Longrightarrow>
   (case rpcs s ! t of
      RIdle \<Rightarrow> step (ReaderCall t) s \<noteq> None
    | RLoop \<Rightarrow> step (ReaderLoad t) s \<noteq> None
    | RLoaded c \<Rightarrow> step (ReaderTryRLock t) s \<noteq> None
    | RLocked c \<Rightarrow> step (ReaderRecheck t) s \<noteq> None
    | RStale c \<Rightarrow> step (ReaderRUnlock t) s \<noteq> None)"
  by (auto split: rpc.splits prod.splits option.splits)

lemma Reader_alone:
  assumes i: "inv s" and t: "t < length (rpcs s)" and pc: "rpcs s ! t = RIdle"
  shows "\<exists>s1. run [ReaderCall t, ReaderLoad t, ReaderTryRLock t, ReaderRecheck t] s =
            Some ([Silent, Silent, Silent, ReaderReturns t (length (handles s))], s1)"
  using t pc live_lock_free [OF i] by (simp add: TryRLock_def)

lemma run_append:
  "run (as @ bs) s =
     (case run as s of
        None \<Rightarrow> None
      | Some (obs1, s1) \<Rightarrow>
          (case run bs s1 of None \<Rightarrow> None | Some (obs2, s2) \<Rightarrow> Some (obs1 @ obs2, s2)))"
  by (induction as arbitrary: s) (auto split: option.splits)

lemma starving_block:
  assumes "starving s"
  shows "\<exists>s1. run [ReaderLoad 0, SwapEnter, SwapPublish, SwapLockAnnounce, ReaderTryRLock 0,
                    SwapLockAcquire, SwapUnlock, SwapExit] s =
            Some ([Silent, Silent, Silent, Silent, ReaderRetries 0, Silent, Silent, SwapReturns], s1) \<and>
            starving s1"
  using assms
  by (simp add: starving_def guard_TryLock_def publish_def mutex_at_def set_mutex_def nth_append
      LockAnnounce_def LockAcquire_def Unlock_def TryRLock_def RWMutex_zero_def absorb_def
      guard_Unlock_def nth_list_update)

lemma starve_run:
  "\<exists>obs s. run (starve k) (init 1 r0 w0) = Some (obs, s) \<and>
           count_list obs (ReaderRetries 0) = k \<and>
           (\<forall>h. ReaderReturns 0 h \<notin> set obs) \<and> starving s"
proof (induction k)
  case 0
  show ?case
    by (simp add: init_def New_def starving_def mutex_at_def)
next
  case (Suc k)
  then obtain obs s where r: "run (starve k) (init 1 r0 w0) = Some (obs, s)"
    and c: "count_list obs (ReaderRetries 0) = k" and n: "\<forall>h. ReaderReturns 0 h \<notin> set obs"
    and p: "starving s"
    by blast
  from starving_block [OF p] obtain s1 where
    b: "run [ReaderLoad 0, SwapEnter, SwapPublish, SwapLockAnnounce, ReaderTryRLock 0,
             SwapLockAcquire, SwapUnlock, SwapExit] s =
          Some ([Silent, Silent, Silent, Silent, ReaderRetries 0, Silent, Silent, SwapReturns], s1)"
    and p1: "starving s1"
    by blast
  have "run (starve (Suc k)) (init 1 r0 w0) =
     Some (obs @ [Silent, Silent, Silent, Silent, ReaderRetries 0, Silent, Silent, SwapReturns], s1)"
    by (simp only: starve.simps run_append r b option.case prod.case)
  with c n p1 show ?case by auto
qed

lemma late_reader_run:
  "run [ReaderCall 0, ReaderLoad 0, SwapEnter, SwapPublish, SwapLockAnnounce, SwapLockAcquire,
        SwapUnlock, SwapExit, ReaderTryRLock 0, ReaderRecheck 0] (init 1 7 8) =
   Some ([Silent, Silent, Silent, Silent, Silent, Silent, Silent, SwapReturns, Silent, Silent],
         late_reader)"
  by (simp add: evaldefs late_reader_def)

subsection \<open>The methods run alone are runs of the steps\<close>

text \<open>
  A method whose steps are taken one after another, with nothing in between, does what
  the method of the sequential model does.
\<close>

lemma set_mutex_twice [simp]: "set_mutex p m (set_mutex p m1 w) = set_mutex p m w"
  by (cases "p < length (heap w)") (simp_all add: set_mutex_def list_update_beyond)

lemma Get_as_steps:
  assumes "run [GetEnter, GetExit] s = Some ([Silent, GetReturns x], s1)"
  shows "Writer_Get (shared s) = (Inr x, shared s1)"
  using assms
  by (auto simp: Writer_Get_def split: option.splits wpc.splits)

lemma Set_as_steps:
  assumes "run [SetEnter x, SetExit] s = Some ([Silent, SetReturns y], s1)"
  shows "Writer_Set x (shared s) = (Inr y, shared s1)"
  using assms
  by (auto simp: Writer_Set_def guard_TryLock_def guard_Unlock_def split: option.splits wpc.splits if_splits)

lemma Swap_as_steps:
  assumes "run [SwapEnter, SwapPublish, SwapLockAnnounce, SwapLockAcquire, SwapUnlock, SwapExit] s =
             Some ([Silent, Silent, Silent, Silent, Silent, SwapReturns], s1)"
    and "current (shared s) < length (heap (shared s))"
  shows "Writer_Swap (shared s) = Some (Inr (), shared s1)"
  using assms
  by (auto simp: Writer_Swap_def Lock_def guard_TryLock_def publish_def mutex_at_set_mutex Let_def
        split: option.splits wpc.splits if_splits)

lemma Reader_as_steps:
  assumes "run [ReaderCall t, ReaderLoad t, ReaderTryRLock t, ReaderRecheck t] s =
             Some ([Silent, Silent, Silent, ReaderReturns t k], s1)"
  shows "Writer_Reader (shared s) = Some (Inr (handles s1 ! k), shared s1)"
  using assms
  by (subst Writer_Reader.simps)
     (auto simp: split: option.splits if_splits rpc.splits prod.splits)

lemma Done_as_step:
  assumes "step (HandleDone h) s = Some (DoneReturns, s1)"
  shows "Reader_Done (handles s ! h) (shared s) = (Inr (), handles s1 ! h, shared s1)"
  using assms
  by (auto split: if_splits prod.splits sum.splits)

subsection \<open>Set, Swap and Reader run alone\<close>

lemma Writer_Swap_alone_exchanges:
  assumes "current w < length (heap w)"
  shows
    "(Writer_Swap (snd (Writer_Set x w)) = Some (Inr (), w2) \<longrightarrow>
        (\<exists>w3. Writer_Reader w2 =
           Some (Inr \<lparr>reader_mu = current w2, reader_done = False, reader_v = x\<rparr>, w3)) \<and>
        fst (Reader_Get \<lparr>reader_mu = current w2, reader_done = False, reader_v = x\<rparr>) = Inr x \<and>
        Writer_Get w2 = (Inr (published w), w2)) \<and>
     (Writer_Swap w = Some (Inr (), w2) \<longrightarrow>
        (\<exists>w3. Writer_Reader w2 =
           Some (Inr \<lparr>reader_mu = current w2, reader_done = False, reader_v = writerValue w\<rparr>, w3)) \<and>
        fst (Reader_Get \<lparr>reader_mu = current w2, reader_done = False, reader_v = writerValue w\<rparr>) =
          Inr (writerValue w) \<and>
        Writer_Get w2 = (Inr (published w), w2))"
proof -
  have direct: "(\<exists>w3. Writer_Reader w2 =
           Some (Inr \<lparr>reader_mu = current w2, reader_done = False, reader_v = writerValue u\<rparr>, w3)) \<and>
        fst (Reader_Get \<lparr>reader_mu = current w2, reader_done = False, reader_v = writerValue u\<rparr>) =
          Inr (writerValue u) \<and>
        Writer_Get w2 = (Inr (published u), w2)"
    if sw: "Writer_Swap u = Some (Inr (), w2)" and wf: "current u < length (heap u)" for u
  proof -
    from Writer_Swap_returns [OF sw wf]
    have p: "published w2 = writerValue u" and v: "writerValue w2 = published u"
      and g: "\<not> unsyncWriterCheck w2" and m: "mutex_at (current w2) w2 = RWMutex_zero"
      by blast+
    from Reader_sees_published [OF m] p g v show ?thesis
      by (simp add: Reader_Get_def Writer_Get_free)
  qed
  have after_Set: "(\<exists>w3. Writer_Reader w2 =
           Some (Inr \<lparr>reader_mu = current w2, reader_done = False, reader_v = x\<rparr>, w3)) \<and>
        fst (Reader_Get \<lparr>reader_mu = current w2, reader_done = False, reader_v = x\<rparr>) = Inr x \<and>
        Writer_Get w2 = (Inr (published w), w2)"
    if sw: "Writer_Swap (snd (Writer_Set x w)) = Some (Inr (), w2)"
  proof -
    have g: "\<not> unsyncWriterCheck w"
    proof
      assume "unsyncWriterCheck w"
      with sw show False by (simp add: Writer_Set_held Writer_Swap_held)
    qed
    then have s: "snd (Writer_Set x w) = w\<lparr>writerValue := x\<rparr>" by (simp add: Writer_Set_free)
    from assms have wf: "current (w\<lparr>writerValue := x\<rparr>) < length (heap (w\<lparr>writerValue := x\<rparr>))" by simp
    from direct [OF sw [unfolded s] wf] show ?thesis by (simp add: published_def)
  qed
  from direct [OF _ assms] after_Set show ?thesis by blast
qed

subsection \<open>The writer role in a run\<close>

lemma reader_role_range:
  "reader_role a \<longleftrightarrow>
     a \<in> range ReaderCall \<union> range ReaderLoad \<union> range ReaderTryRLock \<union> range ReaderRecheck \<union>
         range ReaderRUnlock \<union> range HandleGet \<union> range HandleDone"
  by (cases a) (auto simp: reader_role_def)

lemma view_reader_step:
  assumes i: "inv s" and st: "step a s = Some (ob, s1)" and a: "reader_role a"
  shows "writer_view s1 = writer_view s"
proof -
  from a have r: "a \<in> range ReaderCall \<union> range ReaderLoad \<union> range ReaderTryRLock \<union> range ReaderRecheck \<union>
         range ReaderRUnlock \<union> range HandleGet \<union> range HandleDone"
    by (simp add: reader_role_range)
  then have np: "a \<noteq> SwapPublish" and ns: "a \<noteq> SetExit" and nx: "a \<noteq> SwapExit" by auto
  note p = step_published [OF st np] and v = step_writerValue [OF st ns nx]
    and w = step_wpc_readers [OF st r]
  from i have sh: "shape_ok s" by (simp add: inv_def)
  have c: "cur_v (heap (shared s1) ! q) = cur_v (heap (shared s) ! q)" if "retiring (wpc s) = Some q" for q
  proof -
    from sh that have "q < length (heap (shared s))" by (auto simp: shape_ok_def)
    from step_cur_v [OF st this] show ?thesis .
  qed
  have "phase_of s1 = phase_of s"
    unfolding phase_of_def w by (cases "wpc s") (simp_all add: c retiring_def)
  with p v show ?thesis by (simp add: writer_view_def)
qed

lemma view_enter:
  assumes "shape_ok s" and "step a s = Some (ob, s1)" and "a \<in> {GetEnter, SwapEnter} \<union> range SetEnter"
  shows "writer_effect a (writer_view s) = Some (writer_view s1)"
  using assms
  by (auto simp: writer_view_def phase_of_def shape_ok_def guard_TryLock_def published_def
        split: if_splits wpc.splits)

lemma view_GetExit:
  "step GetExit s = Some (ob, s1) \<Longrightarrow> writer_effect GetExit (writer_view s) = Some (writer_view s1)"
  by (auto simp: writer_view_def phase_of_def split: wpc.splits)

lemma view_SetExit:
  "step SetExit s = Some (ob, s1) \<Longrightarrow> writer_effect SetExit (writer_view s) = Some (writer_view s1)"
  by (auto simp: writer_view_def phase_of_def split: wpc.splits)

lemma view_SwapPublish:
  "shape_ok s \<Longrightarrow> step SwapPublish s = Some (ob, s1) \<Longrightarrow>
   writer_effect SwapPublish (writer_view s) = Some (writer_view s1)"
  by (auto simp: writer_view_def phase_of_def shape_ok_def publish_def published_def nth_append
        split: wpc.splits)

lemma view_SwapLockAnnounce:
  "step SwapLockAnnounce s = Some (ob, s1) \<Longrightarrow>
   writer_effect SwapLockAnnounce (writer_view s) = Some (writer_view s1)"
  by (auto simp: writer_view_def phase_of_def split: wpc.splits option.splits)

lemma view_SwapLockAcquire:
  "step SwapLockAcquire s = Some (ob, s1) \<Longrightarrow>
   writer_effect SwapLockAcquire (writer_view s) = Some (writer_view s1)"
  by (auto simp: writer_view_def phase_of_def split: wpc.splits option.splits)

lemma view_SwapUnlock:
  "step SwapUnlock s = Some (ob, s1) \<Longrightarrow>
   writer_effect SwapUnlock (writer_view s) = Some (writer_view s1)"
  by (auto simp: writer_view_def phase_of_def split: wpc.splits)

lemma view_SwapExit:
  "step SwapExit s = Some (ob, s1) \<Longrightarrow>
   writer_effect SwapExit (writer_view s) = Some (writer_view s1)"
  by (auto simp: writer_view_def phase_of_def absorb_def split: wpc.splits)

lemma view_writer_step:
  assumes i: "inv s" and st: "step a s = Some (ob, s1)" and a: "\<not> reader_role a"
  shows "writer_effect a (writer_view s) = Some (writer_view s1)"
proof -
  from i have sh: "shape_ok s" by (simp add: inv_def)
  from a show ?thesis
    by (cases a)
       (use view_enter [OF sh st] view_GetExit view_SetExit view_SwapPublish [OF sh]
          view_SwapLockAnnounce view_SwapLockAcquire view_SwapUnlock view_SwapExit st
         in \<open>auto simp: reader_role_def\<close>)
qed

lemma view_run:
  assumes "inv s" and "run as s = Some (obs, s1)"
  shows "writer_effects (writer_calls as) (writer_view s) = Some (writer_view s1)"
  using assms
proof (induction as arbitrary: s obs)
  case Nil
  then show ?case by (simp add: writer_calls_def)
next
  case (Cons a as)
  from Cons.prems(2) obtain ob s' obs' where st: "step a s = Some (ob, s')"
    and r: "run as s' = Some (obs', s1)"
    by (auto simp: run_Cons_Some simp del: run.simps(2))
  from Cons.IH [OF inv_step [OF Cons.prems(1) st] r]
  have ih: "writer_effects (writer_calls as) (writer_view s') = Some (writer_view s1)" .
  show ?case
  proof (cases "reader_role a")
    case True
    from view_reader_step [OF Cons.prems(1) st True] ih True show ?thesis
      by (simp add: writer_calls_def)
  next
    case False
    from view_writer_step [OF Cons.prems(1) st False] ih False show ?thesis
      by (simp add: writer_calls_def)
  qed
qed

lemma writer_calls_Nil: "writer_calls bs = [] \<longleftrightarrow> (\<forall>a \<in> set bs. reader_role a)"
  by (auto simp: writer_calls_def filter_empty_conv)

lemma step_ReaderReturns:
  assumes "step a s = Some (ReaderReturns t k, s1)"
  shows "k = length (handles s) \<and>
         handles s1 = handles s @ [\<lparr>reader_mu = current (shared s), reader_done = False,
                                     reader_v = published (shared s)\<rparr>]"
  using assms
  by (cases a)
     (auto simp: published_def split: option.splits wpc.splits if_splits rpc.splits prod.splits
        sum.splits)

lemma new_handles_see_published:
  assumes "inv s" and "run bs s = Some (obs, s1)" and "writer_calls bs = []"
    and "ReaderReturns t k \<in> set obs"
  shows "k < length (handles s1) \<and> reader_v (handles s1 ! k) = published (shared s)"
  using assms
proof (induction bs arbitrary: s obs)
  case Nil
  then show ?case by simp
next
  case (Cons a bs)
  from Cons.prems(2) obtain ob s' obs' where st: "step a s = Some (ob, s')"
    and r: "run bs s' = Some (obs', s1)" and obs: "obs = ob # obs'"
    by (auto simp: run_Cons_Some simp del: run.simps(2))
  from Cons.prems(3) have ra: "reader_role a" and rest: "writer_calls bs = []"
    by (simp_all add: writer_calls_Nil)
  from inv_step [OF Cons.prems(1) st] have i': "inv s'" .
  from view_reader_step [OF Cons.prems(1) st ra]
  have p: "published (shared s') = published (shared s)" by (simp add: writer_view_def)
  from Cons.prems(4) obs consider "ob = ReaderReturns t k" | "ReaderReturns t k \<in> set obs'"
    by auto
  then show ?case
  proof cases
    case 1
    with step_ReaderReturns [of a s t k s'] st
    have k: "k < length (handles s')" and v: "reader_v (handles s' ! k) = published (shared s)"
      by (simp_all add: nth_append)
    from run_handle [OF i' r k] v show ?thesis by simp
  next
    case 2
    from Cons.IH [OF i' r rest 2] p show ?thesis by simp
  qed
qed

lemma Reader_alone_Get:
  assumes i: "inv s" and t: "t < length (rpcs s)" and pc: "rpcs s ! t = RIdle"
  shows "\<exists>s1. run [ReaderCall t, ReaderLoad t, ReaderTryRLock t, ReaderRecheck t,
                   HandleGet (length (handles s))] s =
            Some ([Silent, Silent, Silent, ReaderReturns t (length (handles s)),
                   HandleGetReturns (published (shared s))], s1)"
  using t pc live_lock_free [OF i] by (simp add: TryRLock_def Reader_Get_def published_def)

lemma Get_alone:
  assumes i: "inv s" and w: "wpc s = WIdle"
  shows "(\<exists>s1. run [GetEnter, GetExit] s = Some ([Silent, GetReturns (writerValue (shared s))], s1)) \<and>
         Writer_Get (shared s) = (Inr (writerValue (shared s)), shared s)"
proof -
  from i w have "\<not> unsyncWriterCheck (shared s)" by (simp add: inv_def shape_ok_def)
  then show ?thesis by (simp add: guard_TryLock_def Writer_Get_free)
qed

lemma set_and_swapped_run:
  "run [SetEnter 9, SetExit, SwapEnter, SwapPublish, SwapLockAnnounce, HandleDone 0,
        SwapLockAcquire, SwapUnlock, SwapExit] one_handle =
   Some ([Silent, SetReturns 8, Silent, Silent, Silent, DoneReturns, Silent, Silent, SwapReturns],
         set_and_swapped)"
  by (simp add: evaldefs one_handle_def set_and_swapped_def)

lemma swapped_42_run:
  "run [SwapEnter, SwapPublish, SwapLockAnnounce, SwapLockAcquire, SwapUnlock, SwapExit]
     (init 1 [42] [-1]) =
   Some ([Silent, Silent, Silent, Silent, Silent, SwapReturns], swapped_42)"
  by (simp add: evaldefs swapped_42_def)

section \<open>The claims\<close>

text \<open>
  C1. Take any execution from \<^verbatim>\<open>New\<close>, with any number of reader threads and handles,
  that has reached a state in which no writer-role method is in progress, and continue it
  by any schedule whose writer-role actions are exactly those of \<^verbatim>\<open>Set(x)\<close> followed by
  a \<^verbatim>\<open>Swap\<close> that returns (or of that \<^verbatim>\<open>Swap\<close> alone, \<open>x\<close> then being the writer-side
  value as it was); the actions of the reader role are interleaved freely. Then \<open>x\<close>
  is published and the writer side holds the value that was published before: the
  writer-side \<^verbatim>\<open>Get\<close> run next returns that value, every handle that a \<^verbatim>\<open>Reader\<close> call
  returns afterwards, before another writer-role action, carries \<open>x\<close> and its \<^verbatim>\<open>Get\<close>
  gives \<open>x\<close> while it is not released, and a \<^verbatim>\<open>Reader\<close> call of an idle thread run alone
  returns such a handle. So after \<^verbatim>\<open>New([42], [-1])\<close> and \<^verbatim>\<open>Swap\<close> the reader sees \<open>-1\<close>
  and the writer \<open>42\<close>.
\<close>

theorem Swap_exchanges_values:
  assumes "reachable s0" and "wpc s0 = WIdle" and "run as s0 = Some (obs, s1)"
    and "writer_calls as = [SetEnter x, SetExit, SwapEnter, SwapPublish, SwapLockAnnounce,
                            SwapLockAcquire, SwapUnlock, SwapExit] \<or>
         writer_calls as = [SwapEnter, SwapPublish, SwapLockAnnounce, SwapLockAcquire,
                            SwapUnlock, SwapExit] \<and> x = writerValue (shared s0)"
  shows
   "wpc s1 = WIdle \<and>
    published (shared s1) = x \<and>
    writerValue (shared s1) = published (shared s0) \<and>
    (\<exists>s2. run [GetEnter, GetExit] s1 = Some ([Silent, GetReturns (published (shared s0))], s2)) \<and>
    Writer_Get (shared s1) = (Inr (published (shared s0)), shared s1) \<and>
    (\<forall>bs obs2 s2 t k.
       run bs s1 = Some (obs2, s2) \<and> writer_calls bs = [] \<and> ReaderReturns t k \<in> set obs2 \<longrightarrow>
       k < length (handles s2) \<and> reader_v (handles s2 ! k) = x \<and>
       (\<not> reader_done (handles s2 ! k) \<longrightarrow>
          step (HandleGet k) s2 = Some (HandleGetReturns x, s2))) \<and>
    (\<forall>t. t < length (rpcs s1) \<and> rpcs s1 ! t = RIdle \<longrightarrow>
       (\<exists>s2. run [ReaderCall t, ReaderLoad t, ReaderTryRLock t, ReaderRecheck t,
                   HandleGet (length (handles s1))] s1 =
              Some ([Silent, Silent, Silent, ReaderReturns t (length (handles s1)),
                     HandleGetReturns x], s2)))"
proof -
  from reachable_inv [OF assms(1)] have i0: "inv s0" .
  from run_inv [OF i0 assms(3)] have i1: "inv s1" .
  have v0: "writer_view s0 = (PIdle, writerValue (shared s0), published (shared s0))"
    using assms(2) by (simp add: writer_view_def phase_of_def)
  from view_run [OF i0 assms(3)] assms(4)
  have "writer_view s1 = (PIdle, published (shared s0), x)"
    unfolding v0 by auto
  then have ph: "phase_of s1 = PIdle" and wv: "writerValue (shared s1) = published (shared s0)"
    and pb: "published (shared s1) = x"
    by (simp_all add: writer_view_def)
  from ph have w1: "wpc s1 = WIdle"
    by (simp add: phase_of_def split: wpc.splits)
  note g = Get_alone [OF i1 w1, unfolded wv]
  have c6: "\<forall>bs obs2 s2 t k.
       run bs s1 = Some (obs2, s2) \<and> writer_calls bs = [] \<and> ReaderReturns t k \<in> set obs2 \<longrightarrow>
       k < length (handles s2) \<and> reader_v (handles s2 ! k) = x \<and>
       (\<not> reader_done (handles s2 ! k) \<longrightarrow>
          step (HandleGet k) s2 = Some (HandleGetReturns x, s2))"
  proof (intro allI impI)
    fix bs obs2 s2 t k
    assume a: "run bs s1 = Some (obs2, s2) \<and> writer_calls bs = [] \<and> ReaderReturns t k \<in> set obs2"
    with new_handles_see_published [OF i1, of bs obs2 s2 t k] pb
    have k: "k < length (handles s2)" and v: "reader_v (handles s2 ! k) = x"
      by simp_all
    have "step (HandleGet k) s2 = Some (HandleGetReturns x, s2)" if "\<not> reader_done (handles s2 ! k)"
      using step_HandleGet_active [OF k that] v by simp
    with k v show "k < length (handles s2) \<and> reader_v (handles s2 ! k) = x \<and>
       (\<not> reader_done (handles s2 ! k) \<longrightarrow>
          step (HandleGet k) s2 = Some (HandleGetReturns x, s2))"
      by blast
  qed
  have c7: "\<forall>t. t < length (rpcs s1) \<and> rpcs s1 ! t = RIdle \<longrightarrow>
       (\<exists>s2. run [ReaderCall t, ReaderLoad t, ReaderTryRLock t, ReaderRecheck t,
                   HandleGet (length (handles s1))] s1 =
              Some ([Silent, Silent, Silent, ReaderReturns t (length (handles s1)),
                     HandleGetReturns x], s2))"
    using Reader_alone_Get [OF i1] pb by auto
  from w1 pb wv g c6 c7 show ?thesis by (intro conjI) blast+
qed

theorem Swap_exchanges_values_witness:
  "reachable one_handle \<and> wpc one_handle = WIdle \<and>
   handles one_handle = [\<lparr>reader_mu = 0, reader_done = False, reader_v = 7\<rparr>] \<and>
   run [SetEnter 9, SetExit, SwapEnter, SwapPublish, SwapLockAnnounce, HandleDone 0,
        SwapLockAcquire, SwapUnlock, SwapExit] one_handle =
     Some ([Silent, SetReturns 8, Silent, Silent, Silent, DoneReturns, Silent, Silent, SwapReturns],
           set_and_swapped) \<and>
   writer_calls [SetEnter 9, SetExit, SwapEnter, SwapPublish, SwapLockAnnounce, HandleDone 0,
        SwapLockAcquire, SwapUnlock, SwapExit] =
     [SetEnter (9::nat), SetExit, SwapEnter, SwapPublish, SwapLockAnnounce, SwapLockAcquire,
      SwapUnlock, SwapExit] \<and>
   published (shared one_handle) = 7 \<and>
   published (shared set_and_swapped) = 9 \<and>
   writerValue (shared set_and_swapped) = 7 \<and>
   (\<exists>s2. run [ReaderCall 0, ReaderLoad 0, ReaderTryRLock 0, ReaderRecheck 0, HandleGet 1]
            set_and_swapped =
          Some ([Silent, Silent, Silent, ReaderReturns 0 1, HandleGetReturns 9], s2)) \<and>
   (\<exists>s2. run [GetEnter, GetExit] set_and_swapped = Some ([Silent, GetReturns 7], s2)) \<and>
   reachable (init 1 [42] [-1::int]) \<and> wpc (init 1 [42] [-1::int]) = WIdle \<and>
   run [SwapEnter, SwapPublish, SwapLockAnnounce, SwapLockAcquire, SwapUnlock, SwapExit]
     (init 1 [42] [-1]) =
     Some ([Silent, Silent, Silent, Silent, Silent, SwapReturns], swapped_42) \<and>
   writerValue (shared (init 1 [42] [-1::int])) = [-1] \<and>
   published (shared (init 1 [42] [-1::int])) = [42] \<and>
   (\<exists>s2. run [ReaderCall 0, ReaderLoad 0, ReaderTryRLock 0, ReaderRecheck 0, HandleGet 0] swapped_42 =
          Some ([Silent, Silent, Silent, ReaderReturns 0 0, HandleGetReturns [-1]], s2)) \<and>
   (\<exists>s2. run [GetEnter, GetExit] swapped_42 = Some ([Silent, GetReturns [42]], s2))"
proof -
  have w1: "wpc one_handle = WIdle"
    and h1: "handles one_handle = [\<lparr>reader_mu = 0, reader_done = False, reader_v = 7\<rparr>]"
    and p1: "published (shared one_handle) = 7"
    by (simp_all add: one_handle_def published_def)
  have c1: "writer_calls [SetEnter 9, SetExit, SwapEnter, SwapPublish, SwapLockAnnounce, HandleDone 0,
        SwapLockAcquire, SwapUnlock, SwapExit] =
     [SetEnter (9::nat), SetExit, SwapEnter, SwapPublish, SwapLockAnnounce, SwapLockAcquire,
      SwapUnlock, SwapExit]"
    by (simp add: writer_calls_def reader_role_def)
  then have d1: "writer_calls [SetEnter 9, SetExit, SwapEnter, SwapPublish, SwapLockAnnounce,
        HandleDone 0, SwapLockAcquire, SwapUnlock, SwapExit] =
     [SetEnter (9::nat), SetExit, SwapEnter, SwapPublish, SwapLockAnnounce, SwapLockAcquire,
      SwapUnlock, SwapExit] \<or>
     writer_calls [SetEnter 9, SetExit, SwapEnter, SwapPublish, SwapLockAnnounce,
        HandleDone 0, SwapLockAcquire, SwapUnlock, SwapExit] =
     [SwapEnter, SwapPublish, SwapLockAnnounce, SwapLockAcquire, SwapUnlock, SwapExit] \<and>
     9 = writerValue (shared one_handle)"
    by simp
  have t1: "0 < length (rpcs set_and_swapped) \<and> rpcs set_and_swapped ! 0 = RIdle"
    and l1: "length (handles set_and_swapped) = 1"
    by (simp_all add: set_and_swapped_def)
  note r1 =
    Swap_exchanges_values [OF one_handle_reachable w1 set_and_swapped_run d1, unfolded p1 l1]
  from r1 have a1: "published (shared set_and_swapped) = 9"
    and a2: "writerValue (shared set_and_swapped) = 7"
    and a3: "\<exists>s2. run [GetEnter, GetExit] set_and_swapped = Some ([Silent, GetReturns 7], s2)"
    by blast+
  from r1 have "\<forall>t. t < length (rpcs set_and_swapped) \<and> rpcs set_and_swapped ! t = RIdle \<longrightarrow>
       (\<exists>s2. run [ReaderCall t, ReaderLoad t, ReaderTryRLock t, ReaderRecheck t, HandleGet 1]
                set_and_swapped =
              Some ([Silent, Silent, Silent, ReaderReturns t 1, HandleGetReturns 9], s2))"
    by blast
  with t1 have a4: "\<exists>s2. run [ReaderCall 0, ReaderLoad 0, ReaderTryRLock 0, ReaderRecheck 0,
                HandleGet 1] set_and_swapped =
          Some ([Silent, Silent, Silent, ReaderReturns 0 1, HandleGetReturns 9], s2)"
    by blast
  have r2: "reachable (init 1 [42] [-1::int])" by (rule reachable_init)
  have w2: "wpc (init 1 [42] [-1::int]) = WIdle" by (simp add: init_def)
  have v2: "writerValue (shared (init 1 [42] [-1::int])) = [-1]"
    and p2: "published (shared (init 1 [42] [-1::int])) = [42]"
    by (simp_all add: init_def New_def published_def)
  have "writer_calls [SwapEnter, SwapPublish, SwapLockAnnounce, SwapLockAcquire, SwapUnlock,
        SwapExit] =
     [SwapEnter :: int list action, SwapPublish, SwapLockAnnounce, SwapLockAcquire, SwapUnlock,
      SwapExit]"
    by (simp add: writer_calls_def reader_role_def)
  with v2 have d2: "writer_calls [SwapEnter, SwapPublish, SwapLockAnnounce, SwapLockAcquire,
        SwapUnlock, SwapExit] =
     [SetEnter [-1::int], SetExit, SwapEnter, SwapPublish, SwapLockAnnounce,
      SwapLockAcquire, SwapUnlock, SwapExit] \<or>
     writer_calls [SwapEnter, SwapPublish, SwapLockAnnounce, SwapLockAcquire, SwapUnlock,
        SwapExit] =
     [SwapEnter :: int list action, SwapPublish, SwapLockAnnounce, SwapLockAcquire, SwapUnlock,
      SwapExit] \<and>
     [-1] = writerValue (shared (init 1 [42] [-1::int]))"
    by simp
  have t2: "0 < length (rpcs swapped_42) \<and> rpcs swapped_42 ! 0 = RIdle"
    and l2: "length (handles swapped_42) = 0"
    by (simp_all add: swapped_42_def)
  note r3 = Swap_exchanges_values [OF r2 w2 swapped_42_run d2, unfolded p2 l2]
  from r3 have b1: "\<exists>s2. run [GetEnter, GetExit] swapped_42 = Some ([Silent, GetReturns [42]], s2)"
    by blast
  from r3 have "\<forall>t. t < length (rpcs swapped_42) \<and> rpcs swapped_42 ! t = RIdle \<longrightarrow>
       (\<exists>s2. run [ReaderCall t, ReaderLoad t, ReaderTryRLock t, ReaderRecheck t, HandleGet 0]
                swapped_42 =
              Some ([Silent, Silent, Silent, ReaderReturns t 0, HandleGetReturns [-1]], s2))"
    by blast
  with t2 have b2: "\<exists>s2. run [ReaderCall 0, ReaderLoad 0, ReaderTryRLock 0, ReaderRecheck 0,
                HandleGet 0] swapped_42 =
          Some ([Silent, Silent, Silent, ReaderReturns 0 0, HandleGetReturns [-1]], s2)"
    by blast
  from one_handle_reachable w1 h1 set_and_swapped_run c1 p1 a1 a2 a4 a3 r2 w2 swapped_42_run v2 p2
    b2 b1
  show ?thesis by (intro conjI)
qed

text \<open>
  C2. Take any execution in which \<^verbatim>\<open>Swap\<close> publishes its record and later is about to
  return, and any handle that existed at the publication. Either the handle was already
  released then, or a \<^verbatim>\<open>Done\<close> on it returned between the publication and the return of
  \<^verbatim>\<open>Swap\<close>; a handle not yet released at the publication is on the record that was
  live. While such a handle is not released, the \<^verbatim>\<open>Lock\<close> of \<^verbatim>\<open>Swap\<close> on its record
  cannot be granted.
\<close>

theorem Swap_returns_after_Done:
  assumes r0: "reachable s0"
    and pub: "step SwapPublish s0 = Some (ob0, s1)"
    and rn: "run as s1 = Some (obs, s2)"
    and ex: "step SwapExit s2 = Some (ob2, s3)"
    and h: "h < length (handles s0)"
  shows "(reader_done (handles s0 ! h) \<or>
           (\<exists>i < length as. as ! i = HandleDone h \<and> obs ! i = DoneReturns)) \<and>
         reader_done (handles s2 ! h) \<and>
         (\<not> reader_done (handles s0 ! h) \<longrightarrow> reader_mu (handles s0 ! h) = current (shared s0)) \<and>
         (\<forall>s. reachable s \<and> h < length (handles s) \<and> \<not> reader_done (handles s ! h) \<and>
               wpc s = SwapWaiting (reader_mu (handles s ! h)) \<longrightarrow>
               step SwapLockAcquire s = None)"
proof -
  from reachable_inv [OF r0] have i0: "inv s0" .
  from inv_step [OF i0 pub] have i1: "inv s1" .
  from run_inv [OF i1 rn] have i2: "inv s2" .
  from pub have pc0: "wpc s0 = InSwap" by (auto split: wpc.splits)
  from pub pc0 have hs1: "handles s1 = handles s0"
    and hp1: "length (heap (shared s1)) = Suc (length (heap (shared s0)))"
    by (auto simp: publish_def)
  from ex obtain old where pc2: "wpc s2 = SwapUnlocked old" by (auto split: wpc.splits)
  from h hs1 have h1: "h < length (handles s1)" by simp
  from run_handle [OF i1 rn h1] hs1
  have h2: "h < length (handles s2)"
    and mu: "reader_mu (handles s2 ! h) = reader_mu (handles s0 ! h)"
    by simp_all
  from i0 have sh0: "shape_ok s0" by (simp add: inv_def)
  from shape_handle_ptr [OF sh0 h] have "reader_mu (handles s0 ! h) < length (heap (shared s0))" .
  moreover from run_heap_mono [OF rn] hp1
  have "length (heap (shared s0)) < length (heap (shared s2))" by simp
  moreover from i2 have "Suc (current (shared s2)) = length (heap (shared s2))"
    by (simp add: inv_def shape_ok_def)
  ultimately have ne: "reader_mu (handles s2 ! h) \<noteq> current (shared s2)"
    using mu by simp
  have d2: "reader_done (handles s2 ! h)"
  proof (rule ccontr)
    assume "\<not> reader_done (handles s2 ! h)"
    from active_handles_after_drain [OF i2 _ h2 this] pc2 ne show False
      by (simp add: draining_def)
  qed
  from run_handle_done [OF i1 rn h2] d2 hs1 h
  have c1: "reader_done (handles s0 ! h) \<or>
           (\<exists>i < length as. as ! i = HandleDone h \<and> obs ! i = DoneReturns)"
    by simp
  have c3: "\<not> reader_done (handles s0 ! h) \<longrightarrow> reader_mu (handles s0 ! h) = current (shared s0)"
    using active_handles_after_drain [OF i0 _ h] pc0 by (simp add: draining_def)
  have c4: "\<forall>s. reachable s \<and> h < length (handles s) \<and> \<not> reader_done (handles s ! h) \<and>
               wpc s = SwapWaiting (reader_mu (handles s ! h)) \<longrightarrow>
               step SwapLockAcquire s = None"
    using Swap_blocked_by_handle reachable_inv by blast
  from c1 d2 c3 c4 show ?thesis by (intro conjI)
qed

theorem Swap_returns_after_Done_witness:
  "reachable swap_entered \<and>
   step SwapPublish swap_entered = Some (Silent, swap_published) \<and>
   run [SwapLockAnnounce, HandleDone 0, SwapLockAcquire, SwapUnlock] swap_published =
     Some ([Silent, DoneReturns, Silent, Silent], swap_unlocked) \<and>
   step SwapExit swap_unlocked =
     Some (SwapReturns, swap_unlocked\<lparr>shared := guard_Unlock (absorb 0 (shared swap_unlocked)),
                                      wpc := WIdle\<rparr>) \<and>
   0 < length (handles swap_entered) \<and>
   reader_done (handles swap_unlocked ! 0) \<and>
   reachable swap_waiting \<and> 0 < length (handles swap_waiting) \<and>
   \<not> reader_done (handles swap_waiting ! 0) \<and>
   wpc swap_waiting = SwapWaiting (reader_mu (handles swap_waiting ! 0)) \<and>
   step SwapLockAcquire swap_waiting = None"
proof -
  have ex: "step SwapExit swap_unlocked =
     Some (SwapReturns, swap_unlocked\<lparr>shared := guard_Unlock (absorb 0 (shared swap_unlocked)),
                                      wpc := WIdle\<rparr>)"
    by (simp add: swap_unlocked_def)
  have h: "0 < length (handles swap_entered)" by (simp add: swap_entered_def)
  have w: "0 < length (handles swap_waiting) \<and> \<not> reader_done (handles swap_waiting ! 0) \<and>
      wpc swap_waiting = SwapWaiting (reader_mu (handles swap_waiting ! 0))"
    by (simp add: swap_waiting_def)
  from Swap_returns_after_Done [OF swap_entered_reachable swap_published_step swap_unlocked_run ex h]
  have "reader_done (handles swap_unlocked ! 0)"
    and "\<forall>s. reachable s \<and> 0 < length (handles s) \<and> \<not> reader_done (handles s ! 0) \<and>
               wpc s = SwapWaiting (reader_mu (handles s ! 0)) \<longrightarrow>
               step SwapLockAcquire s = None"
    by blast+
  with swap_waiting_reachable w have "reader_done (handles swap_unlocked ! 0)"
    and "step SwapLockAcquire swap_waiting = None"
    by blast+
  with swap_entered_reachable swap_published_step swap_unlocked_run ex h swap_waiting_reachable w
  show ?thesis by (intro conjI) blast+
qed

text \<open>
  C3. In every execution from \<^verbatim>\<open>New\<close>, a handle is released exactly when a \<^verbatim>\<open>Done\<close> on it
  has returned before. \<^verbatim>\<open>Get\<close> and \<^verbatim>\<open>Done\<close> panic with the old-reader message exactly
  on a released handle, and such a call leaves the whole state (the handle and every lock)
  as it was. On a handle not yet released, \<^verbatim>\<open>Done\<close> returns and sets the flag; no step
  ever clears the flag again.
\<close>

theorem released_handle_is_stale:
  assumes "run as (init n r0 w0) = Some (obs, s)" and "h < length (handles s)"
  shows
   "(reader_done (handles s ! h) \<longleftrightarrow>
       (\<exists>i < length as. as ! i = HandleDone h \<and> obs ! i = DoneReturns)) \<and>
    (fst (Reader_Get (handles s ! h)) = Inl messageUsageOldReaderDetected \<longleftrightarrow>
       reader_done (handles s ! h)) \<and>
    (fst (Reader_Done (handles s ! h) (shared s)) = Inl messageUsageOldReaderDetected \<longleftrightarrow>
       reader_done (handles s ! h)) \<and>
    (reader_done (handles s ! h) \<longrightarrow>
       step (HandleGet h) s = Some (Panics messageUsageOldReaderDetected, s) \<and>
       step (HandleDone h) s = Some (Panics messageUsageOldReaderDetected, s)) \<and>
    (\<not> reader_done (handles s ! h) \<longrightarrow>
       (\<exists>s1. step (HandleDone h) s = Some (DoneReturns, s1) \<and>
             handles s1 = (handles s)[h := (handles s ! h)\<lparr>reader_done := True\<rparr>])) \<and>
    (\<forall>a ob s1. step a s = Some (ob, s1) \<and> reader_done (handles s ! h) \<longrightarrow>
       reader_done (handles s1 ! h))"
proof -
  have i0: "inv (init n r0 w0)" by (rule inv_init)
  from run_inv [OF i0 assms(1)] have i: "inv s" .
  have "handles (init n r0 w0) = []" by (simp add: init_def)
  with run_handle_done [OF i0 assms(1) assms(2)]
  have c1: "reader_done (handles s ! h) \<longleftrightarrow>
       (\<exists>i < length as. as ! i = HandleDone h \<and> obs ! i = DoneReturns)" by simp
  have c2: "fst (Reader_Get (handles s ! h)) = Inl messageUsageOldReaderDetected \<longleftrightarrow>
       reader_done (handles s ! h)"
    by (simp add: Reader_Get_def)
  have c3: "fst (Reader_Done (handles s ! h) (shared s)) = Inl messageUsageOldReaderDetected \<longleftrightarrow>
       reader_done (handles s ! h)"
    by (simp add: Reader_Done_def Let_def split: option.splits)
  have c4: "reader_done (handles s ! h) \<longrightarrow>
       step (HandleGet h) s = Some (Panics messageUsageOldReaderDetected, s) \<and>
       step (HandleDone h) s = Some (Panics messageUsageOldReaderDetected, s)"
    using step_HandleGet_released [OF assms(2)] step_HandleDone_released [OF assms(2)] by blast
  have c5: "\<not> reader_done (handles s ! h) \<longrightarrow>
       (\<exists>s1. step (HandleDone h) s = Some (DoneReturns, s1) \<and>
             handles s1 = (handles s)[h := (handles s ! h)\<lparr>reader_done := True\<rparr>])"
  proof
    assume a: "\<not> reader_done (handles s ! h)"
    show "\<exists>s1. step (HandleDone h) s = Some (DoneReturns, s1) \<and>
             handles s1 = (handles s)[h := (handles s ! h)\<lparr>reader_done := True\<rparr>]"
      by (simp only: step_HandleDone_active [OF i assms(2) a]) simp
  qed
  have c6: "\<forall>a ob s1. step a s = Some (ob, s1) \<and> reader_done (handles s ! h) \<longrightarrow>
       reader_done (handles s1 ! h)"
    using step_handle [OF i _ assms(2)] by blast
  from c1 c2 c3 c4 c5 c6 show ?thesis by (intro conjI)
qed

theorem released_handle_is_stale_witness:
  "run [ReaderCall 0, ReaderLoad 0, ReaderTryRLock 0, ReaderRecheck 0, HandleDone 0] (init 1 7 8) =
     Some ([Silent, Silent, Silent, ReaderReturns 0 0, DoneReturns], released_handle) \<and>
   0 < length (handles released_handle) \<and>
   reader_done (handles released_handle ! 0) \<and>
   step (HandleGet 0) released_handle = Some (Panics messageUsageOldReaderDetected, released_handle) \<and>
   step (HandleDone 0) released_handle = Some (Panics messageUsageOldReaderDetected, released_handle)"
proof -
  have h: "0 < length (handles released_handle)" by (simp add: released_handle_def)
  have d: "reader_done (handles released_handle ! 0)" by (simp add: released_handle_def)
  from released_handle_is_stale [OF released_handle_run h] d
  have "step (HandleGet 0) released_handle = Some (Panics messageUsageOldReaderDetected, released_handle) \<and>
   step (HandleDone 0) released_handle = Some (Panics messageUsageOldReaderDetected, released_handle)"
    by blast
  with released_handle_run h d show ?thesis by (intro conjI) simp_all
qed

text \<open>
  C4. \<^verbatim>\<open>Get\<close>, \<^verbatim>\<open>Set\<close> and \<^verbatim>\<open>Swap\<close> panic with the multiple-writers message exactly
  when the guard is held at entry, and then the Writer is left as it was. In every state
  reachable from \<^verbatim>\<open>New\<close> the guard is held exactly while a writer method is in
  progress; entering one then panics without changing the state, and otherwise succeeds.
\<close>

theorem concurrent_writer_misuse:
  "(fst (Writer_Get w) = Inl messageMultipleWritersDetected \<longleftrightarrow> unsyncWriterCheck w) \<and>
   (fst (Writer_Set x w) = Inl messageMultipleWritersDetected \<longleftrightarrow> unsyncWriterCheck w) \<and>
   ((\<exists>u. Writer_Swap w = Some (Inl messageMultipleWritersDetected, u)) \<longleftrightarrow> unsyncWriterCheck w) \<and>
   (unsyncWriterCheck w \<longrightarrow>
      Writer_Get w = (Inl messageMultipleWritersDetected, w) \<and>
      Writer_Set x w = (Inl messageMultipleWritersDetected, w) \<and>
      Writer_Swap w = Some (Inl messageMultipleWritersDetected, w)) \<and>
   (reachable s \<longrightarrow>
      (unsyncWriterCheck (shared s) \<longleftrightarrow> wpc s \<noteq> WIdle) \<and>
      (wpc s \<noteq> WIdle \<longrightarrow>
         step GetEnter s = Some (Panics messageMultipleWritersDetected, s) \<and>
         step (SetEnter x) s = Some (Panics messageMultipleWritersDetected, s) \<and>
         step SwapEnter s = Some (Panics messageMultipleWritersDetected, s)) \<and>
      (wpc s = WIdle \<longrightarrow>
         (\<exists>s1. step GetEnter s = Some (Silent, s1)) \<and>
         (\<exists>s1. step (SetEnter x) s = Some (Silent, s1)) \<and>
         (\<exists>s1. step SwapEnter s = Some (Silent, s1))))"
proof -
  have c1: "fst (Writer_Get w) = Inl messageMultipleWritersDetected \<longleftrightarrow> unsyncWriterCheck w"
    by (cases "unsyncWriterCheck w") (simp_all add: Writer_Get_free Writer_Get_held)
  have c2: "fst (Writer_Set x w) = Inl messageMultipleWritersDetected \<longleftrightarrow> unsyncWriterCheck w"
    by (cases "unsyncWriterCheck w") (simp_all add: Writer_Set_free Writer_Set_held)
  have c3: "(\<exists>u. Writer_Swap w = Some (Inl messageMultipleWritersDetected, u)) \<longleftrightarrow> unsyncWriterCheck w"
    by (cases "unsyncWriterCheck w")
       (auto simp: Writer_Swap_held Writer_Swap_def guard_TryLock_def publish_def Let_def
          split: option.splits)
  have c4: "unsyncWriterCheck w \<longrightarrow>
      Writer_Get w = (Inl messageMultipleWritersDetected, w) \<and>
      Writer_Set x w = (Inl messageMultipleWritersDetected, w) \<and>
      Writer_Swap w = Some (Inl messageMultipleWritersDetected, w)"
    by (simp add: Writer_Get_held Writer_Set_held Writer_Swap_held)
  have c5: "(unsyncWriterCheck (shared s) \<longleftrightarrow> wpc s \<noteq> WIdle) \<and>
      (wpc s \<noteq> WIdle \<longrightarrow>
         step GetEnter s = Some (Panics messageMultipleWritersDetected, s) \<and>
         step (SetEnter x) s = Some (Panics messageMultipleWritersDetected, s) \<and>
         step SwapEnter s = Some (Panics messageMultipleWritersDetected, s)) \<and>
      (wpc s = WIdle \<longrightarrow>
         (\<exists>s1. step GetEnter s = Some (Silent, s1)) \<and>
         (\<exists>s1. step (SetEnter x) s = Some (Silent, s1)) \<and>
         (\<exists>s1. step SwapEnter s = Some (Silent, s1)))" if "reachable s"
  proof -
    from reachable_inv [OF that] have g: "unsyncWriterCheck (shared s) \<longleftrightarrow> wpc s \<noteq> WIdle"
      by (simp add: inv_def shape_ok_def)
    then show ?thesis
      by (cases "wpc s = WIdle") (simp_all add: guard_TryLock_def)
  qed
  from c1 c2 c3 c4 c5 show ?thesis by blast
qed

theorem concurrent_writer_misuse_witness:
  "reachable inside_Set \<and> wpc inside_Set \<noteq> WIdle \<and> unsyncWriterCheck (shared inside_Set) \<and>
   Writer_Get (shared inside_Set) = (Inl messageMultipleWritersDetected, shared inside_Set) \<and>
   Writer_Set 3 (shared inside_Set) = (Inl messageMultipleWritersDetected, shared inside_Set) \<and>
   Writer_Swap (shared inside_Set) = Some (Inl messageMultipleWritersDetected, shared inside_Set) \<and>
   step GetEnter inside_Set = Some (Panics messageMultipleWritersDetected, inside_Set) \<and>
   step (SetEnter 3) inside_Set = Some (Panics messageMultipleWritersDetected, inside_Set) \<and>
   step SwapEnter inside_Set = Some (Panics messageMultipleWritersDetected, inside_Set)"
proof -
  have r: "reachable inside_Set" by (rule run_init_reachable [OF inside_Set_run])
  have p: "wpc inside_Set \<noteq> WIdle" and g: "unsyncWriterCheck (shared inside_Set)"
    by (simp_all add: inside_Set_def)
  from concurrent_writer_misuse [of "shared inside_Set" 3 inside_Set] r p g
  show ?thesis by (simp del: step.simps)
qed

text \<open>
  C5. In every reachable state the steps of \<^verbatim>\<open>Reader\<close> are those of the acquisition
  algorithm. After the load, a failed \<^verbatim>\<open>TryRLock\<close> goes back to the load and a successful
  one adds a reader to the loaded record. A thread past \<^verbatim>\<open>TryRLock\<close> holds that record's
  shared lock (its reader count is positive and no writer holds it); its second load
  returns a handle when the live reference is still that record, and otherwise the thread
  releases the shared lock and goes back to the load. A handle is created by no other
  step: it wraps the live record, on which the caller holds the shared lock, and that
  record's value.
\<close>

theorem Reader_acquisition:
  assumes "reachable s" and "t < length (rpcs s)"
  shows
   "(rpcs s ! t = RLoop \<longrightarrow>
       step (ReaderLoad t) s =
         Some (Silent, s\<lparr>rpcs := (rpcs s)[t := RLoaded (current (shared s))]\<rparr>)) \<and>
    (\<forall>c. rpcs s ! t = RLoaded c \<longrightarrow>
       (wlock (mutex_at c (shared s)) \<noteq> NoWriter \<longrightarrow>
          step (ReaderTryRLock t) s = Some (ReaderRetries t, s\<lparr>rpcs := (rpcs s)[t := RLoop]\<rparr>)) \<and>
       (wlock (mutex_at c (shared s)) = NoWriter \<longrightarrow>
          (\<exists>s1. step (ReaderTryRLock t) s = Some (Silent, s1) \<and> rpcs s1 ! t = RLocked c \<and>
                readerCount (mutex_at c (shared s1)) = Suc (readerCount (mutex_at c (shared s)))))) \<and>
    (\<forall>c. rpcs s ! t = RLocked c \<longrightarrow>
       0 < readerCount (mutex_at c (shared s)) \<and>
       wlock (mutex_at c (shared s)) \<noteq> WriterHolds \<and>
       (c \<noteq> current (shared s) \<longrightarrow>
          step (ReaderRecheck t) s = Some (Silent, s\<lparr>rpcs := (rpcs s)[t := RStale c]\<rparr>)) \<and>
       (c = current (shared s) \<longrightarrow>
          step (ReaderRecheck t) s =
            Some (ReaderReturns t (length (handles s)),
                  s\<lparr>rpcs := (rpcs s)[t := RIdle],
                    handles := handles s @
                      [\<lparr>reader_mu = c, reader_done = False, reader_v = published (shared s)\<rparr>]\<rparr>))) \<and>
    (\<forall>c. rpcs s ! t = RStale c \<longrightarrow>
       (\<exists>s1. step (ReaderRUnlock t) s = Some (ReaderRetries t, s1) \<and> rpcs s1 ! t = RLoop \<and>
             handles s1 = handles s \<and>
             Suc (readerCount (mutex_at c (shared s1))) = readerCount (mutex_at c (shared s)))) \<and>
    (\<forall>a ob s1. step a s = Some (ob, s1) \<and> length (handles s) < length (handles s1) \<longrightarrow>
       (\<exists>u. a = ReaderRecheck u \<and> u < length (rpcs s) \<and>
            rpcs s ! u = RLocked (current (shared s)) \<and>
            ob = ReaderReturns u (length (handles s)) \<and>
            handles s1 = handles s @ [\<lparr>reader_mu = current (shared s), reader_done = False,
                                        reader_v = published (shared s)\<rparr>] \<and>
            0 < readerCount (mutex_at (current (shared s)) (shared s1)) \<and>
            wlock (mutex_at (current (shared s)) (shared s1)) = NoWriter))"
proof -
  from reachable_inv [OF assms(1)] have i: "inv s" .
  then have sh: "shape_ok s" and wl: "wlocks_ok s" by (simp_all add: inv_def)
  from reachable_holding [OF assms(1)] have ho: "holding_ok s" .
  have live_free: "wlock (mutex_at (current (shared s)) (shared s)) = NoWriter"
    using sh wl by (auto simp: shape_ok_def wlocks_ok_def wlock_expected_def retiring_def)
  have c1: "rpcs s ! t = RLoop \<longrightarrow>
       step (ReaderLoad t) s =
         Some (Silent, s\<lparr>rpcs := (rpcs s)[t := RLoaded (current (shared s))]\<rparr>)"
    using assms(2) by simp
  have c2: "\<forall>c. rpcs s ! t = RLoaded c \<longrightarrow>
       (wlock (mutex_at c (shared s)) \<noteq> NoWriter \<longrightarrow>
          step (ReaderTryRLock t) s = Some (ReaderRetries t, s\<lparr>rpcs := (rpcs s)[t := RLoop]\<rparr>)) \<and>
       (wlock (mutex_at c (shared s)) = NoWriter \<longrightarrow>
          (\<exists>s1. step (ReaderTryRLock t) s = Some (Silent, s1) \<and> rpcs s1 ! t = RLocked c \<and>
                readerCount (mutex_at c (shared s1)) = Suc (readerCount (mutex_at c (shared s)))))"
  proof (intro allI impI)
    fix c assume pc: "rpcs s ! t = RLoaded c"
    from shape_rpc_ptr [OF sh assms(2), of c] pc have c: "c < length (heap (shared s))"
      by (simp add: rpc_ptr_def)
    show "(wlock (mutex_at c (shared s)) \<noteq> NoWriter \<longrightarrow>
          step (ReaderTryRLock t) s = Some (ReaderRetries t, s\<lparr>rpcs := (rpcs s)[t := RLoop]\<rparr>)) \<and>
       (wlock (mutex_at c (shared s)) = NoWriter \<longrightarrow>
          (\<exists>s1. step (ReaderTryRLock t) s = Some (Silent, s1) \<and> rpcs s1 ! t = RLocked c \<and>
                readerCount (mutex_at c (shared s1)) = Suc (readerCount (mutex_at c (shared s)))))"
      using assms(2) pc c by (simp add: TryRLock_def mutex_at_set_mutex)
  qed
  have c3: "\<forall>c. rpcs s ! t = RLocked c \<longrightarrow>
       0 < readerCount (mutex_at c (shared s)) \<and>
       wlock (mutex_at c (shared s)) \<noteq> WriterHolds \<and>
       (c \<noteq> current (shared s) \<longrightarrow>
          step (ReaderRecheck t) s = Some (Silent, s\<lparr>rpcs := (rpcs s)[t := RStale c]\<rparr>)) \<and>
       (c = current (shared s) \<longrightarrow>
          step (ReaderRecheck t) s =
            Some (ReaderReturns t (length (handles s)),
                  s\<lparr>rpcs := (rpcs s)[t := RIdle],
                    handles := handles s @
                      [\<lparr>reader_mu = c, reader_done = False, reader_v = published (shared s)\<rparr>]\<rparr>))"
  proof (intro allI impI)
    fix c assume pc: "rpcs s ! t = RLocked c"
    then have "rpc_holds c (rpcs s ! t)" by (simp add: rpc_holds_def)
    from rpc_holds_count [OF i assms(2) this]
    have c: "c < length (heap (shared s))" and pos: "0 < readerCount (mutex_at c (shared s))"
      by simp_all
    have nh: "wlock (mutex_at c (shared s)) \<noteq> WriterHolds"
    proof
      assume "wlock (mutex_at c (shared s)) = WriterHolds"
      with wl c have "wpc s = SwapHolding c"
        by (auto simp: wlocks_ok_def wlock_expected_def split: if_splits)
      with ho pos show False by (simp add: holding_ok_def)
    qed
    show "0 < readerCount (mutex_at c (shared s)) \<and>
       wlock (mutex_at c (shared s)) \<noteq> WriterHolds \<and>
       (c \<noteq> current (shared s) \<longrightarrow>
          step (ReaderRecheck t) s = Some (Silent, s\<lparr>rpcs := (rpcs s)[t := RStale c]\<rparr>)) \<and>
       (c = current (shared s) \<longrightarrow>
          step (ReaderRecheck t) s =
            Some (ReaderReturns t (length (handles s)),
                  s\<lparr>rpcs := (rpcs s)[t := RIdle],
                    handles := handles s @
                      [\<lparr>reader_mu = c, reader_done = False, reader_v = published (shared s)\<rparr>]\<rparr>))"
      using pos nh assms(2) pc by (simp add: published_def)
  qed
  have c4: "\<forall>c. rpcs s ! t = RStale c \<longrightarrow>
       (\<exists>s1. step (ReaderRUnlock t) s = Some (ReaderRetries t, s1) \<and> rpcs s1 ! t = RLoop \<and>
             handles s1 = handles s \<and>
             Suc (readerCount (mutex_at c (shared s1))) = readerCount (mutex_at c (shared s)))"
  proof (intro allI impI)
    fix c assume pc: "rpcs s ! t = RStale c"
    then have "rpc_holds c (rpcs s ! t)" by (simp add: rpc_holds_def)
    from rpc_holds_count [OF i assms(2) this]
    have c: "c < length (heap (shared s))" and pos: "0 < readerCount (mutex_at c (shared s))"
      by simp_all
    then show "\<exists>s1. step (ReaderRUnlock t) s = Some (ReaderRetries t, s1) \<and> rpcs s1 ! t = RLoop \<and>
             handles s1 = handles s \<and>
             Suc (readerCount (mutex_at c (shared s1))) = readerCount (mutex_at c (shared s))"
      using assms(2) pc by (simp add: RUnlock_def mutex_at_set_mutex)
  qed
  have c5: "\<forall>a ob s1. step a s = Some (ob, s1) \<and> length (handles s) < length (handles s1) \<longrightarrow>
       (\<exists>u. a = ReaderRecheck u \<and> u < length (rpcs s) \<and>
            rpcs s ! u = RLocked (current (shared s)) \<and>
            ob = ReaderReturns u (length (handles s)) \<and>
            handles s1 = handles s @ [\<lparr>reader_mu = current (shared s), reader_done = False,
                                        reader_v = published (shared s)\<rparr>] \<and>
            0 < readerCount (mutex_at (current (shared s)) (shared s1)) \<and>
            wlock (mutex_at (current (shared s)) (shared s1)) = NoWriter)"
  proof (intro allI impI)
    fix a ob s1
    assume "step a s = Some (ob, s1) \<and> length (handles s) < length (handles s1)"
    then have st: "step a s = Some (ob, s1)" and gr: "length (handles s) < length (handles s1)"
      by simp_all
    from step_creates_handle [OF st gr] obtain u where u: "a = ReaderRecheck u"
      "u < length (rpcs s)" "rpcs s ! u = RLocked (current (shared s))"
      "ob = ReaderReturns u (length (handles s))" "shared s1 = shared s"
      "handles s1 = handles s @ [\<lparr>reader_mu = current (shared s), reader_done = False,
                                          reader_v = published (shared s)\<rparr>]"
      by blast
    from u(3) have "rpc_holds (current (shared s)) (rpcs s ! u)" by (simp add: rpc_holds_def)
    from rpc_holds_count [OF i u(2) this] live_free u
    show "\<exists>u. a = ReaderRecheck u \<and> u < length (rpcs s) \<and>
            rpcs s ! u = RLocked (current (shared s)) \<and>
            ob = ReaderReturns u (length (handles s)) \<and>
            handles s1 = handles s @ [\<lparr>reader_mu = current (shared s), reader_done = False,
                                        reader_v = published (shared s)\<rparr>] \<and>
            0 < readerCount (mutex_at (current (shared s)) (shared s1)) \<and>
            wlock (mutex_at (current (shared s)) (shared s1)) = NoWriter"
      by simp
  qed
  from c1 c2 c3 c4 c5 show ?thesis by (intro conjI)
qed

theorem Reader_acquisition_witness:
  "reachable stale_locked \<and> 0 < length (rpcs stale_locked) \<and>
   rpcs stale_locked ! 0 = RLocked 0 \<and> current (shared stale_locked) = 1 \<and>
   0 < readerCount (mutex_at 0 (shared stale_locked)) \<and>
   step (ReaderRecheck 0) stale_locked =
     Some (Silent, stale_locked\<lparr>rpcs := (rpcs stale_locked)[0 := RStale 0]\<rparr>) \<and>
   reachable one_handle \<and>
   step (ReaderRecheck 0) (one_handle\<lparr>rpcs := [RLocked 0], handles := []\<rparr>) =
     Some (ReaderReturns 0 0, one_handle)"
proof -
  have r: "reachable stale_locked" by (rule run_init_reachable [OF stale_locked_run])
  have t: "0 < length (rpcs stale_locked)" and pc: "rpcs stale_locked ! 0 = RLocked 0"
    and c: "current (shared stale_locked) = 1"
    by (simp_all add: stale_locked_def)
  from Reader_acquisition [OF r t] pc c
  have "0 < readerCount (mutex_at 0 (shared stale_locked)) \<and>
   step (ReaderRecheck 0) stale_locked =
     Some (Silent, stale_locked\<lparr>rpcs := (rpcs stale_locked)[0 := RStale 0]\<rparr>)"
    by (simp del: step.simps)
  moreover have "step (ReaderRecheck 0) (one_handle\<lparr>rpcs := [RLocked 0], handles := []\<rparr>) =
     Some (ReaderReturns 0 0, one_handle)"
    by (simp add: one_handle_def)
  ultimately show ?thesis using r t pc c one_handle_reachable by (intro conjI) simp_all
qed




text \<open>
  C8, as stated, fails: \<^verbatim>\<open>New(5, 5)\<close> puts the same value on both sides, and so does
  \<^verbatim>\<open>Set(7)\<close> after \<^verbatim>\<open>New(7, 8)\<close>; in both states no \<^verbatim>\<open>Swap\<close> is in progress.
\<close>

theorem roles_not_disjoint_counterexample:
  "wpc (init 1 (5::nat) 5) = WIdle \<and>
   writerValue (shared (init 1 (5::nat) 5)) = published (shared (init 1 5 5)) \<and>
   run [SetEnter 7, SetExit] (init 1 (7::nat) 8) =
     Some ([Silent, SetReturns 8],
           \<lparr>shared = \<lparr>heap = [\<lparr>rwmutex = RWMutex_zero, cur_v = 7\<rparr>], current = 0,
                      unsyncWriterCheck = False, writerValue = 7\<rparr>,
            wpc = WIdle, rpcs = [RIdle], handles = []\<rparr>) \<and>
   writerValue \<lparr>heap = [\<lparr>rwmutex = RWMutex_zero, cur_v = 7::nat\<rparr>], current = 0,
                unsyncWriterCheck = False, writerValue = 7\<rparr> =
   published \<lparr>heap = [\<lparr>rwmutex = RWMutex_zero, cur_v = 7::nat\<rparr>], current = 0,
              unsyncWriterCheck = False, writerValue = 7\<rparr>"
  by (simp add: init_def New_def published_def guard_TryLock_def guard_Unlock_def)

text \<open>
  C8, amended. In every execution from \<^verbatim>\<open>New(r0, w0)\<close> with \<open>r0 \<noteq> w0\<close> in which no
  \<^verbatim>\<open>Set\<close> is given the value published at that moment, the writer-side value differs
  from the published one whenever \<^verbatim>\<open>Swap\<close> is not between its publication and its
  return, and equals it in between. The published value changes only in the publication
  step of \<^verbatim>\<open>Swap\<close>, which takes the writer-side value; the writer-side value changes
  only at the end of \<^verbatim>\<open>Set\<close>, to the argument, and at the end of \<^verbatim>\<open>Swap\<close>, to the value
  of the retired record.
\<close>

theorem roles_disjoint_outside_Swap:
  assumes "run as (init n r0 w0) = Some (obs, s)" and "r0 \<noteq> w0"
    and "Set_avoids_published as (init n r0 w0)"
  shows "(retiring (wpc s) = None \<longrightarrow> writerValue (shared s) \<noteq> published (shared s)) \<and>
         (retiring (wpc s) \<noteq> None \<longrightarrow> writerValue (shared s) = published (shared s)) \<and>
         (\<forall>a ob s1. step a s = Some (ob, s1) \<and> a \<noteq> SwapPublish \<longrightarrow>
            published (shared s1) = published (shared s)) \<and>
         (\<forall>a ob s1. step a s = Some (ob, s1) \<and> a \<noteq> SetExit \<and> a \<noteq> SwapExit \<longrightarrow>
            writerValue (shared s1) = writerValue (shared s)) \<and>
         (\<forall>ob s1. step SwapPublish s = Some (ob, s1) \<longrightarrow>
            published (shared s1) = writerValue (shared s) \<and>
            retiring (wpc s1) = Some (current (shared s))) \<and>
         (\<forall>ob s1 p. step SwapExit s = Some (ob, s1) \<and> retiring (wpc s) = Some p \<longrightarrow>
            writerValue (shared s1) = cur_v (heap (shared s) ! p) \<and>
            writerValue (shared s1) \<noteq> published (shared s1)) \<and>
         (\<forall>ob s1 x. step SetExit s = Some (ob, s1) \<and> wpc s = InSet x \<longrightarrow>
            writerValue (shared s1) = x)"
proof -
  have i0: "inv (init n r0 w0)" by (rule inv_init)
  from roles_run [OF roles_init [OF assms(2)] i0 assms(1) assms(3)] have ro: "roles_ok s" .
  from run_inv [OF i0 assms(1)] have i: "inv s" .
  then have sh: "shape_ok s" by (simp add: inv_def)
  have c1: "retiring (wpc s) = None \<longrightarrow> writerValue (shared s) \<noteq> published (shared s)"
    using ro by (auto simp: roles_ok_def)
  have c2: "retiring (wpc s) \<noteq> None \<longrightarrow> writerValue (shared s) = published (shared s)"
    using ro by (auto simp: roles_ok_def)
  have c3: "\<forall>a ob s1. step a s = Some (ob, s1) \<and> a \<noteq> SwapPublish \<longrightarrow>
            published (shared s1) = published (shared s)"
    using step_published by blast
  have c4: "\<forall>a ob s1. step a s = Some (ob, s1) \<and> a \<noteq> SetExit \<and> a \<noteq> SwapExit \<longrightarrow>
            writerValue (shared s1) = writerValue (shared s)"
    using step_writerValue by blast
  have c5: "\<forall>ob s1. step SwapPublish s = Some (ob, s1) \<longrightarrow>
            published (shared s1) = writerValue (shared s) \<and>
            retiring (wpc s1) = Some (current (shared s))"
    by (auto simp: publish_def published_def retiring_def split: wpc.splits)
  have c6: "\<forall>ob s1 p. step SwapExit s = Some (ob, s1) \<and> retiring (wpc s) = Some p \<longrightarrow>
            writerValue (shared s1) = cur_v (heap (shared s) ! p) \<and>
            writerValue (shared s1) \<noteq> published (shared s1)"
    using ro by (auto simp: roles_ok_def retiring_def absorb_def split: wpc.splits)
  have c7: "\<forall>ob s1 x. step SetExit s = Some (ob, s1) \<and> wpc s = InSet x \<longrightarrow>
            writerValue (shared s1) = x"
    by (auto simp: guard_Unlock_def)
  from c1 c2 c3 c4 c5 c6 c7 show ?thesis by (intro conjI)
qed

theorem roles_disjoint_outside_Swap_witness:
  "run [SetEnter 9, SetExit, SwapEnter, SwapPublish, SwapLockAnnounce, SwapLockAcquire,
        SwapUnlock, SwapExit] (init 1 7 8) =
     Some ([Silent, SetReturns 8, Silent, Silent, Silent, Silent, Silent, SwapReturns], swapped_once) \<and>
   (7::nat) \<noteq> 8 \<and>
   Set_avoids_published [SetEnter 9, SetExit, SwapEnter, SwapPublish, SwapLockAnnounce,
     SwapLockAcquire, SwapUnlock, SwapExit] (init 1 (7::nat) 8) \<and>
   retiring (wpc swapped_once) = None \<and>
   writerValue (shared swapped_once) \<noteq> published (shared swapped_once) \<and>
   writerValue (shared swapped_once) = 7 \<and> published (shared swapped_once) = 9"
proof -
  have n: "(7::nat) \<noteq> 8" by simp
  have r: "retiring (wpc swapped_once) = None" by (simp add: swapped_once_def retiring_def)
  from roles_disjoint_outside_Swap [OF swapped_once_run n swapped_once_avoids] r
  have "writerValue (shared swapped_once) \<noteq> published (shared swapped_once)" by blast
  moreover have "writerValue (shared swapped_once) = 7" "published (shared swapped_once) = 9"
    by (simp_all add: swapped_once_def published_def)
  ultimately show ?thesis using swapped_once_run n swapped_once_avoids r by (intro conjI)
qed

text \<open>
  C9, as stated, fails: a thread loads the live pointer, a whole \<^verbatim>\<open>Swap\<close> runs and
  returns, and then the thread takes the lock, sees another live pointer and retries,
  at a moment when no \<^verbatim>\<open>Swap\<close> is in progress (the guard is free).
\<close>

theorem retry_outside_Swap_counterexample:
  "run [ReaderCall 0, ReaderLoad 0, SwapEnter, SwapPublish, SwapLockAnnounce, SwapLockAcquire,
        SwapUnlock, SwapExit, ReaderTryRLock 0, ReaderRecheck 0] (init 1 7 8) =
     Some ([Silent, Silent, Silent, Silent, Silent, Silent, Silent, SwapReturns, Silent, Silent],
           late_reader) \<and>
   wpc late_reader = WIdle \<and>
   \<not> unsyncWriterCheck (shared late_reader) \<and>
   step (ReaderRUnlock 0) late_reader =
     Some (ReaderRetries 0,
           late_reader\<lparr>shared := set_mutex 0 \<lparr>readerCount = 0, wlock = NoWriter\<rparr> (shared late_reader),
                       rpcs := [RLoop]\<rparr>)"
  using late_reader_run by (simp add: late_reader_def RUnlock_def mutex_at_def del: run.simps)

text \<open>
  C9, amended. In every execution from \<^verbatim>\<open>New\<close>, the retries of a thread in \<^verbatim>\<open>Reader\<close>
  are at most as many as the publications by \<^verbatim>\<open>Swap\<close>; each step of \<^verbatim>\<open>Reader\<close> can be
  taken at once, whatever the other threads do; a retry is taken only when the record the
  thread loaded is no longer the live one. From a state in which the thread is up to date,
  as it is when it starts a call, its retries in any continuation are at most the
  publications in that continuation, so none without a publication, and a call run alone
  returns a handle in its first iteration. No number bounds the retries of one call: for
  every \<open>k\<close> a schedule makes one call retry \<open>k\<close> times without returning.
\<close>

theorem Reader_retries_follow_publications:
  assumes "run as (init n r0 w0) = Some (obs, s)" and "t < n"
  shows
   "count_list obs (ReaderRetries t) \<le> count_list as SwapPublish \<and>
    (case rpcs s ! t of
       RIdle \<Rightarrow> step (ReaderCall t) s \<noteq> None
     | RLoop \<Rightarrow> step (ReaderLoad t) s \<noteq> None
     | RLoaded c \<Rightarrow> step (ReaderTryRLock t) s \<noteq> None
     | RLocked c \<Rightarrow> step (ReaderRecheck t) s \<noteq> None
     | RStale c \<Rightarrow> step (ReaderRUnlock t) s \<noteq> None) \<and>
    (\<forall>a s1. step a s = Some (ReaderRetries t, s1) \<longrightarrow>
       (\<exists>c. rpc_ptr (rpcs s ! t) = Some c \<and> c \<noteq> current (shared s))) \<and>
    (\<forall>bs obs1 s1. run bs s = Some (obs1, s1) \<and> up_to_date t s \<longrightarrow>
       count_list obs1 (ReaderRetries t) \<le> count_list bs SwapPublish \<and>
       (SwapPublish \<notin> set bs \<longrightarrow> ReaderRetries t \<notin> set obs1)) \<and>
    (rpcs s ! t = RIdle \<longrightarrow>
       (\<exists>s1. run [ReaderCall t, ReaderLoad t, ReaderTryRLock t, ReaderRecheck t] s =
          Some ([Silent, Silent, Silent, ReaderReturns t (length (handles s))], s1))) \<and>
    (\<forall>k. \<exists>obs1 s1. run (starve k) (init 1 r0 w0) = Some (obs1, s1) \<and>
       count_list obs1 (ReaderRetries 0) = k \<and> (\<forall>h. ReaderReturns 0 h \<notin> set obs1))"
proof -
  have i0: "inv (init n r0 w0)" by (rule inv_init)
  have t0: "t < length (rpcs (init n r0 w0))" using assms(2) by (simp add: init_def)
  have b0: "behind t (init n r0 w0) = 0"
    using assms(2) by (simp add: behind_def up_to_date_def init_def)
  from run_inv [OF i0 assms(1)] have i: "inv s" .
  from run_stale [OF stale_init i0 assms(1)] have so: "stale_ok s" .
  have len: "length (rpcs s1) = length (rpcs s0)" if "run xs s0 = Some (ys, s1)"
    for xs ys and s0 s1 :: "'a system"
    using that
  proof (induction xs arbitrary: s0 ys)
    case Nil
    then show ?case by simp
  next
    case (Cons x xs)
    then show ?case
      by (auto simp: run_Cons_Some simp del: run.simps(2) dest: step_rpcs_length)
  qed
  from len [OF assms(1)] t0 have t: "t < length (rpcs s)" by simp
  from run_behind [OF i0 t0 assms(1)] b0
  have c1: "count_list obs (ReaderRetries t) \<le> count_list as SwapPublish" by simp
  note c2 = Reader_never_waits [OF t]
  have c3: "\<forall>a s1. step a s = Some (ReaderRetries t, s1) \<longrightarrow>
       (\<exists>c. rpc_ptr (rpcs s ! t) = Some c \<and> c \<noteq> current (shared s))"
    using retry_means_behind [OF i so t] by blast
  have c4: "\<forall>bs obs1 s1. run bs s = Some (obs1, s1) \<and> up_to_date t s \<longrightarrow>
       count_list obs1 (ReaderRetries t) \<le> count_list bs SwapPublish \<and>
       (SwapPublish \<notin> set bs \<longrightarrow> ReaderRetries t \<notin> set obs1)"
  proof (intro allI impI)
    fix bs obs1 s1
    assume a: "run bs s = Some (obs1, s1) \<and> up_to_date t s"
    then have "behind t s = 0" by (simp add: behind_def)
    with run_behind [OF i t, of bs obs1 s1] a
    have le: "count_list obs1 (ReaderRetries t) \<le> count_list bs SwapPublish" by simp
    have "ReaderRetries t \<notin> set obs1" if "SwapPublish \<notin> set bs"
    proof -
      from that have "count_list bs SwapPublish = 0" by simp
      with le have "count_list obs1 (ReaderRetries t) = 0" by simp
      then show ?thesis by (simp add: count_list_0_iff)
    qed
    with le show "count_list obs1 (ReaderRetries t) \<le> count_list bs SwapPublish \<and>
       (SwapPublish \<notin> set bs \<longrightarrow> ReaderRetries t \<notin> set obs1)" by blast
  qed
  have c5: "rpcs s ! t = RIdle \<longrightarrow>
       (\<exists>s1. run [ReaderCall t, ReaderLoad t, ReaderTryRLock t, ReaderRecheck t] s =
          Some ([Silent, Silent, Silent, ReaderReturns t (length (handles s))], s1))"
    using Reader_alone [OF i t] by blast
  have c6: "\<forall>k. \<exists>obs1 s1. run (starve k) (init 1 r0 w0) = Some (obs1, s1) \<and>
       count_list obs1 (ReaderRetries 0) = k \<and> (\<forall>h. ReaderReturns 0 h \<notin> set obs1)"
    using starve_run [of _ r0 w0] by blast
  from c1 c2 c3 c4 c5 c6 show ?thesis by (intro conjI)
qed

theorem Reader_retries_follow_publications_witness:
  "run [ReaderCall 0, ReaderLoad 0, SwapEnter, SwapPublish, SwapLockAnnounce, SwapLockAcquire,
        SwapUnlock, SwapExit, ReaderTryRLock 0, ReaderRecheck 0] (init 1 7 8) =
     Some ([Silent, Silent, Silent, Silent, Silent, Silent, Silent, SwapReturns, Silent, Silent],
           late_reader) \<and>
   (0::nat) < 1 \<and>
   count_list [Silent, Silent, Silent, Silent, Silent, Silent, Silent, SwapReturns, Silent, Silent]
     (ReaderRetries 0 :: nat obs) \<le>
   count_list [ReaderCall 0, ReaderLoad 0, SwapEnter, SwapPublish, SwapLockAnnounce,
     SwapLockAcquire, SwapUnlock, SwapExit, ReaderTryRLock 0, ReaderRecheck 0] (SwapPublish :: nat action) \<and>
   step (ReaderRUnlock 0) late_reader \<noteq> None \<and>
   rpc_ptr (rpcs late_reader ! 0) = Some 0 \<and> 0 \<noteq> current (shared late_reader)"
proof -
  have t: "(0::nat) < 1" by simp
  have pc: "rpcs late_reader ! 0 = RStale 0" by (simp add: late_reader_def)
  from Reader_retries_follow_publications [OF late_reader_run t]
  have "count_list [Silent, Silent, Silent, Silent, Silent, Silent, Silent, SwapReturns, Silent, Silent]
     (ReaderRetries 0 :: nat obs) \<le>
   count_list [ReaderCall 0, ReaderLoad 0, SwapEnter, SwapPublish, SwapLockAnnounce,
     SwapLockAcquire, SwapUnlock, SwapExit, ReaderTryRLock 0, ReaderRecheck 0] (SwapPublish :: nat action)"
    and "case rpcs late_reader ! 0 of
       RIdle \<Rightarrow> step (ReaderCall 0) late_reader \<noteq> None
     | RLoop \<Rightarrow> step (ReaderLoad 0) late_reader \<noteq> None
     | RLoaded c \<Rightarrow> step (ReaderTryRLock 0) late_reader \<noteq> None
     | RLocked c \<Rightarrow> step (ReaderRecheck 0) late_reader \<noteq> None
     | RStale c \<Rightarrow> step (ReaderRUnlock 0) late_reader \<noteq> None"
    by blast+
  then have "count_list [Silent, Silent, Silent, Silent, Silent, Silent, Silent, SwapReturns, Silent, Silent]
     (ReaderRetries 0 :: nat obs) \<le>
   count_list [ReaderCall 0, ReaderLoad 0, SwapEnter, SwapPublish, SwapLockAnnounce,
     SwapLockAcquire, SwapUnlock, SwapExit, ReaderTryRLock 0, ReaderRecheck 0] (SwapPublish :: nat action)"
    and "step (ReaderRUnlock 0) late_reader \<noteq> None"
    by (simp_all only: pc rpc.case simp_thms)
  moreover have "rpc_ptr (rpcs late_reader ! 0) = Some 0 \<and> 0 \<noteq> current (shared late_reader)"
    by (simp add: late_reader_def rpc_ptr_def)
  ultimately show ?thesis using late_reader_run t by (intro conjI) simp_all
qed

text \<open>
  C10. On a handle not yet released, \<^verbatim>\<open>Get\<close> returns the snapshot and leaves the handle
  as it is; any number of \<^verbatim>\<open>Get\<close> calls in a row all return the snapshot and leave the
  whole state, the locks included, unchanged.
\<close>

theorem Get_on_active_handle:
  assumes "\<not> reader_done r"
  shows "Reader_Get r = (Inr (reader_v r), r) \<and>
         (\<forall>s h n. h < length (handles s) \<and> handles s ! h = r \<longrightarrow>
            run (replicate n (HandleGet h)) s =
              Some (replicate n (HandleGetReturns (reader_v r)), s))"
proof -
  have "run (replicate n (HandleGet h)) s = Some (replicate n (HandleGetReturns (reader_v r)), s)"
    if "h < length (handles s)" "handles s ! h = r" for s :: "'a system" and h n
  proof (induction n)
    case 0
    show ?case by simp
  next
    case (Suc n)
    from that assms have "step (HandleGet h) s = Some (HandleGetReturns (reader_v r), s)"
      using step_HandleGet_active [of h s] by simp
    with Suc show ?case by (simp del: step.simps)
  qed
  with assms show ?thesis by (simp add: Reader_Get_def)
qed

theorem Get_on_active_handle_witness:
  "\<not> reader_done \<lparr>reader_mu = 0, reader_done = False, reader_v = 7::nat\<rparr> \<and>
   Reader_Get \<lparr>reader_mu = 0, reader_done = False, reader_v = 7::nat\<rparr> =
     (Inr 7, \<lparr>reader_mu = 0, reader_done = False, reader_v = 7\<rparr>) \<and>
   run [HandleGet 0, HandleGet 0, HandleGet 0] one_handle =
     Some ([HandleGetReturns 7, HandleGetReturns 7, HandleGetReturns 7], one_handle)"
proof -
  let ?r = "\<lparr>reader_mu = 0, reader_done = False, reader_v = 7::nat\<rparr>"
  have a: "\<not> reader_done ?r" by simp
  have h: "0 < length (handles one_handle) \<and> handles one_handle ! 0 = ?r"
    by (simp add: one_handle_def)
  from Get_on_active_handle [OF a] h
  have "Reader_Get ?r = (Inr (reader_v ?r), ?r)"
    and "run (replicate 3 (HandleGet 0)) one_handle =
           Some (replicate 3 (HandleGetReturns (reader_v ?r)), one_handle)"
    by blast+
  then show ?thesis by (simp add: numeral_3_eq_3 del: step.simps run.simps)
qed

end
